theory Spec2Isabelle
  imports Complex_Main "HOL-Library.AList" "HOL-Library.Log_Nat"
begin

section \<open>Python values, exceptions and outcomes\<close>

text \<open>
  The two scripts \<^verbatim>\<open>json_producer.py\<close> and \<^verbatim>\<open>data_producer.py\<close> talk to a Kinesis
  client, draw random numbers, read the clock, print and sleep. Each of these is
  made explicit: what the outside answers is an \<open>env\<close> (the k-th answer to each kind
  of call), what the script has done so far is a \<open>world\<close> (how many calls of each
  kind were made, and the chronological trace of client calls, sleeps and prints).
  An exception is a value of type \<open>exc\<close>; a call either returns, raises, or is still
  inside one of the script's unbounded loops when the iteration bound given to the
  model is used up (\<open>Running\<close>).
\<close>

datatype exc =
    KeyError
  | IndexError
  | TypeError
  | ValueError
  | OverflowError
  | OSError
  | ResourceNotFoundException
  | ResourceInUseException
  | LimitExceededException
  | ProvisionedThroughputExceededException
  | EndpointConnectionError
  | OtherException string

datatype 'a outcome = Returns 'a | Raises exc | Running

datatype pyval = PInt int | PFloat rat | PStr string

type_synonym dict = "(string \<times> pyval) list"

text \<open>
  \<open>json.dumps\<close> is kept abstract: the serialized text is represented by the value it
  encodes, a single object (\<^verbatim>\<open>json_producer.py\<close>) or a list of objects
  (\<^verbatim>\<open>data_producer.py\<close>), with the keys in insertion order.
\<close>

datatype payload = JsonObject dict | JsonArray "dict list"

datatype message =
    Connecting string string
  | StreamBeingDeleted string
  | CreatingStream string
  | StreamHasStatus string string rat
  | SendingEvery rat
  | SentData dict string
  | PutRecordFailed payload string
  | PutSensorDataFailed string
  | ExceptionWas exc

datatype event =
    DescribeStream string
  | CreateStream string int
  | PutRecord string payload string
  | Sleep rat
  | Print message

text \<open>
  How long a sleep the platform accepts is not in the scripts: \<open>time.sleep\<close> refuses a
  length that is too long for it, with \<open>OverflowError\<close> (the length does not fit the
  platform's time type) or with \<open>OSError\<close> (the system call rejects it). Which lengths
  are refused, and how, is a parameter of the environment.
\<close>

datatype sleep_refusal = OutOfRange | InvalidArgument

record env =
  describe_stream :: "nat \<Rightarrow> exc + string"
  create_stream :: "nat \<Rightarrow> exc option"
  put_record :: "nat \<Rightarrow> exc option"
  random_randint :: "nat \<Rightarrow> int"
  random_random :: "nat \<Rightarrow> rat"
  np_random_randint :: "nat \<Rightarrow> int"
  datetime_now :: "nat \<Rightarrow> string"
  sleep_refused :: "rat \<Rightarrow> sleep_refusal option"

record world =
  n_describe :: nat
  n_create :: nat
  n_put :: nat
  n_randint :: nat
  n_random :: nat
  n_np_randint :: nat
  n_now :: nat
  trace :: "event list"

record args =
  stream_name :: string
  region :: string
  period :: "int option"
  silent :: bool
  objects_per_message :: int

section \<open>Python floats\<close>

text \<open>
  A Python float is a binary64 number. It is modelled by the rational it denotes,
  and every float operation is the exact result rounded to 53 significant bits,
  ties to even. \<open>fl\<close> itself has no exponent bound; subnormal numbers do not arise for
  the magnitudes these scripts compute with, and the two operations that take an
  int of any size, \<open>int / int\<close> and the conversion of an int to a float, raise
  \<open>OverflowError\<close> when the rounded result is beyond the largest float.
\<close>

definition round_half_even :: "rat \<Rightarrow> int" where
  "round_half_even q =
     (let f = \<lfloor>q\<rfloor>; r = q - of_int f
      in if r < 1 / 2 then f else if 1 / 2 < r then f + 1 else if even f then f else f + 1)"

definition float_exponent :: "rat \<Rightarrow> int" where
  "float_exponent y =
     (let (a, b) = quotient_of \<bar>y\<bar>; d = bitlen a - bitlen b
      in if 2 powi d \<le> \<bar>y\<bar> then d else d - 1)"

definition fl :: "rat \<Rightarrow> rat" where
  "fl y = (if y = 0 then 0
           else let u = 2 powi (float_exponent y - 52)
                in of_int (round_half_even (y / u)) * u)"

definition float_mul :: "rat \<Rightarrow> rat \<Rightarrow> rat" where
  "float_mul a b = fl (a * b)"

definition float_sub :: "rat \<Rightarrow> rat \<Rightarrow> rat" where
  "float_sub a b = fl (a - b)"

definition float_div :: "rat \<Rightarrow> rat \<Rightarrow> rat" where
  "float_div a b = fl (a / b)"

definition float_of_int :: "int \<Rightarrow> rat" where
  "float_of_int i = fl (of_int i)"

definition max_float :: rat where
  "max_float = (2 ^ 53 - 1) * 2 ^ 971"

text \<open>
  \<open>a / b\<close> for two ints: the quotient, correctly rounded, or \<open>OverflowError\<close>
  ("integer division result too large for a float"). The divisor of the scripts is
  the literal 1000.
\<close>

definition int_true_div :: "int \<Rightarrow> int \<Rightarrow> exc + rat" where
  "int_true_div a b =
     (let q = fl (of_int a / of_int b)
      in if max_float < \<bar>q\<bar> then Inl OverflowError else Inr q)"

text \<open>
  The conversion that \<open>int / float\<close> applies to its int: the nearest float, or
  \<open>OverflowError\<close> ("int too large to convert to float").
\<close>

definition int_to_float :: "int \<Rightarrow> exc + rat" where
  "int_to_float i =
     (let x = fl (of_int i)
      in if max_float < \<bar>x\<bar> then Inl OverflowError else Inr x)"

text \<open>\<open>int(x)\<close> on a float truncates towards zero.\<close>

definition py_int :: "rat \<Rightarrow> int" where
  "py_int x = (if 0 \<le> x then \<lfloor>x\<rfloor> else \<lceil>x\<rceil>)"

section \<open>Python lists and dicts\<close>

definition py_index :: "'a list \<Rightarrow> int \<Rightarrow> exc + nat" where
  "py_index xs i =
     (let n = int (length xs)
      in if 0 \<le> i \<and> i < n then Inr (nat i)
         else if - n \<le> i \<and> i < 0 then Inr (nat (n + i))
         else Inl IndexError)"

definition list_getitem :: "'a list \<Rightarrow> int \<Rightarrow> exc + 'a" where
  "list_getitem xs i = (case py_index xs i of Inl e \<Rightarrow> Inl e | Inr k \<Rightarrow> Inr (xs ! k))"

definition list_setitem :: "'a list \<Rightarrow> int \<Rightarrow> 'a \<Rightarrow> exc + 'a list" where
  "list_setitem xs i v = (case py_index xs i of Inl e \<Rightarrow> Inl e | Inr k \<Rightarrow> Inr (xs[k := v]))"

definition getitem :: "dict \<Rightarrow> string \<Rightarrow> exc + pyval" where
  "getitem d k = (case map_of d k of None \<Rightarrow> Inl KeyError | Some v \<Rightarrow> Inr v)"

definition setitem :: "dict \<Rightarrow> string \<Rightarrow> pyval \<Rightarrow> dict" where
  "setitem d k v = AList.update k v d"

text \<open>Using a value as a list index: only an int is accepted.\<close>

definition as_index :: "pyval \<Rightarrow> exc + int" where
  "as_index v = (case v of PInt i \<Rightarrow> Inr i | PFloat x \<Rightarrow> Inl TypeError | PStr s \<Rightarrow> Inl TypeError)"

text \<open>\<open>v == k\<close> for an int literal \<open>k\<close>.\<close>

definition py_eq_int :: "pyval \<Rightarrow> int \<Rightarrow> bool" where
  "py_eq_int v k = (case v of PInt i \<Rightarrow> i = k | PFloat x \<Rightarrow> x = of_int k | PStr s \<Rightarrow> False)"

definition py_range :: "int \<Rightarrow> int list" where
  "py_range n = map int [0 ..< nat n]"

section \<open>The outside world\<close>

definition emit :: "event \<Rightarrow> world \<Rightarrow> world" where
  "emit ev w = w\<lparr>trace := trace w @ [ev]\<rparr>"

text \<open>
  \<^verbatim>\<open>kinesis_client.describe_stream(StreamName=stream_name)\<close> followed by the two
  subscripts that read the status. The answer \<open>Inl e\<close> is an exception raised by
  either (a response without the keys raises \<open>KeyError\<close>).
\<close>

definition describe_status :: "env \<Rightarrow> string \<Rightarrow> world \<Rightarrow> (exc + string) \<times> world" where
  "describe_status c name w =
     (describe_stream c (n_describe w),
      emit (DescribeStream name) (w\<lparr>n_describe := Suc (n_describe w)\<rparr>))"

definition call_create_stream :: "env \<Rightarrow> string \<Rightarrow> int \<Rightarrow> world \<Rightarrow> exc option \<times> world" where
  "call_create_stream c name shards w =
     (create_stream c (n_create w),
      emit (CreateStream name shards) (w\<lparr>n_create := Suc (n_create w)\<rparr>))"

definition call_put_record :: "env \<Rightarrow> string \<Rightarrow> payload \<Rightarrow> string \<Rightarrow> world \<Rightarrow> exc option \<times> world" where
  "call_put_record c name d key w =
     (put_record c (n_put w),
      emit (PutRecord name d key) (w\<lparr>n_put := Suc (n_put w)\<rparr>))"

definition call_randint :: "env \<Rightarrow> world \<Rightarrow> int \<times> world" where
  "call_randint c w = (random_randint c (n_randint w), w\<lparr>n_randint := Suc (n_randint w)\<rparr>)"

definition call_random :: "env \<Rightarrow> world \<Rightarrow> rat \<times> world" where
  "call_random c w = (random_random c (n_random w), w\<lparr>n_random := Suc (n_random w)\<rparr>)"

definition call_np_randint :: "env \<Rightarrow> world \<Rightarrow> int \<times> world" where
  "call_np_randint c w =
     (np_random_randint c (n_np_randint w), w\<lparr>n_np_randint := Suc (n_np_randint w)\<rparr>)"

definition call_now :: "env \<Rightarrow> world \<Rightarrow> string \<times> world" where
  "call_now c w = (datetime_now c (n_now w), w\<lparr>n_now := Suc (n_now w)\<rparr>)"

text \<open>
  \<open>time.sleep\<close> first converts the length to the platform's time type, which fails
  for a length the platform refuses, and then raises \<open>ValueError\<close> on a negative
  length.
\<close>

fun refusal_error :: "sleep_refusal \<Rightarrow> exc" where
  "refusal_error OutOfRange = OverflowError"
| "refusal_error InvalidArgument = OSError"

definition time_sleep :: "env \<Rightarrow> rat \<Rightarrow> world \<Rightarrow> unit outcome \<times> world" where
  "time_sleep c s w =
     (case sleep_refused c s of
        Some r \<Rightarrow> (Raises (refusal_error r), w)
      | None \<Rightarrow> if s < 0 then (Raises ValueError, w) else (Returns (), emit (Sleep s) w))"

section \<open>The provisioner (identical in both scripts)\<close>

text \<open>
  \<open>wait_for_stream\<close> has two loops. The first repeats the lookup while it raises
  \<open>KeyError\<close>; any other exception leaves the function. The second sleeps and looks
  up again until the status is \<open>ACTIVE\<close>; there an exception of the lookup is not
  caught at all. \<open>fuel\<close> bounds the number of iterations of each loop.
\<close>

fun wait_for_stream_lookup :: "env \<Rightarrow> string \<Rightarrow> nat \<Rightarrow> world \<Rightarrow> string outcome \<times> world" where
  "wait_for_stream_lookup c name 0 w = (Running, w)"
| "wait_for_stream_lookup c name (Suc fuel) w =
     (case describe_status c name w of
        (Inr status, w') \<Rightarrow> (Returns status, w')
      | (Inl e, w') \<Rightarrow>
          if e = KeyError then wait_for_stream_lookup c name fuel w' else (Raises e, w'))"

fun wait_for_stream_poll ::
  "env \<Rightarrow> string \<Rightarrow> rat \<Rightarrow> nat \<Rightarrow> string \<Rightarrow> world \<Rightarrow> unit outcome \<times> world" where
  "wait_for_stream_poll c name secs 0 status w =
     (if status = ''ACTIVE'' then (Returns (), w) else (Running, w))"
| "wait_for_stream_poll c name secs (Suc fuel) status w =
     (if status = ''ACTIVE'' then (Returns (), w)
      else case time_sleep c secs (emit (Print (StreamHasStatus name status secs)) w) of
             (Returns u, w1) \<Rightarrow>
               (case describe_status c name w1 of
                  (Inr status', w2) \<Rightarrow> wait_for_stream_poll c name secs fuel status' w2
                | (Inl e, w2) \<Rightarrow> (Raises e, w2))
           | (Raises e, w1) \<Rightarrow> (Raises e, w1)
           | (Running, w1) \<Rightarrow> (Running, w1))"

definition wait_for_stream :: "env \<Rightarrow> string \<Rightarrow> nat \<Rightarrow> world \<Rightarrow> unit outcome \<times> world" where
  "wait_for_stream c name fuel w =
     (case wait_for_stream_lookup c name fuel w of
        (Returns status, w1) \<Rightarrow> wait_for_stream_poll c name 3 fuel status w1
      | (Raises e, w1) \<Rightarrow> (Raises e, w1)
      | (Running, w1) \<Rightarrow> (Running, w1))"

text \<open>
  The handler of the bare \<open>except:\<close> of \<open>connect_to_stream\<close>, followed by the final
  \<open>return True\<close>. Nothing in it is caught.
\<close>

definition create_and_wait :: "env \<Rightarrow> string \<Rightarrow> nat \<Rightarrow> world \<Rightarrow> bool outcome \<times> world" where
  "create_and_wait c name fuel w =
     (case call_create_stream c name 1 (emit (Print (CreatingStream name)) w) of
        (Some e, w1) \<Rightarrow> (Raises e, w1)
      | (None, w1) \<Rightarrow>
          (case wait_for_stream c name fuel w1 of
             (Returns u, w2) \<Rightarrow> (Returns True, w2)
           | (Raises e, w2) \<Rightarrow> (Raises e, w2)
           | (Running, w2) \<Rightarrow> (Running, w2)))"

text \<open>
  The \<open>try\<close> block holds the first lookup and, for a status that is neither
  \<open>DELETING\<close> nor \<open>ACTIVE\<close>, the call of \<open>wait_for_stream\<close>: an exception of either
  one enters the handler.
\<close>

definition connect_to_stream :: "env \<Rightarrow> string \<Rightarrow> nat \<Rightarrow> world \<Rightarrow> bool outcome \<times> world" where
  "connect_to_stream c name fuel w =
     (case describe_status c name w of
        (Inr status, w1) \<Rightarrow>
          if status = ''DELETING'' then
            (Returns False, emit (Print (StreamBeingDeleted name)) w1)
          else if status \<noteq> ''ACTIVE'' then
            (case wait_for_stream c name fuel w1 of
               (Returns u, w2) \<Rightarrow> (Returns True, w2)
             | (Raises e, w2) \<Rightarrow> create_and_wait c name fuel w2
             | (Running, w2) \<Rightarrow> (Running, w2))
          else (Returns True, w1)
      | (Inl e, w1) \<Rightarrow> create_and_wait c name fuel w1)"

section \<open>Leaving a block with an exception\<close>

text \<open>
  \<open>or_raise r s k\<close> continues with \<open>k v\<close> when the step \<open>r\<close> produced the value \<open>v\<close>,
  and leaves with the exception and the variables \<open>s\<close> as they are at that point
  when the step raised. \<open>or_stop\<close> is the same inside a loop body.
\<close>

definition or_raise :: "exc + 'a \<Rightarrow> 's \<Rightarrow> ('a \<Rightarrow> (exc + 'b) \<times> 's) \<Rightarrow> (exc + 'b) \<times> 's" where
  "or_raise r s k = (case r of Inl e \<Rightarrow> (Inl e, s) | Inr v \<Rightarrow> k v)"

definition or_stop :: "exc + 'a \<Rightarrow> 's \<Rightarrow> ('a \<Rightarrow> 'b outcome \<times> 's) \<Rightarrow> 'b outcome \<times> 's" where
  "or_stop r s k = (case r of Inl e \<Rightarrow> (Raises e, s) | Inr v \<Rightarrow> k v)"

section \<open>The weighted-random emission loop (\<^verbatim>\<open>json_producer.py\<close>)\<close>

text \<open>
  Lines 81 to 90 of \<^verbatim>\<open>json_producer.py\<close>: \<open>r\<close>, \<open>x\<close> and \<open>ts\<close> are what
  \<open>random.randint(1, 501)\<close>, \<open>random.random()\<close> and \<open>str(datetime.datetime.now())\<close>
  returned; \<open>n\<close> is the list of the three counters, returned as it is when the
  function is left.
\<close>

definition create_object :: "int list \<Rightarrow> int \<Rightarrow> rat \<Rightarrow> string \<Rightarrow> (exc + dict) \<times> int list" where
  "create_object n r x ts =
     (let obj = setitem [] ''msg_type'' (PInt (if r < 401 then 0 else (if r < 501 then 1 else 2)))
      in or_raise (getitem obj ''msg_type'') n (\<lambda>t.
         let obj = (if py_eq_int t 1
                    then setitem obj ''value'' (PFloat (float_of_int (py_int (float_mul x 256))))
                    else setitem obj ''value'' (PFloat (float_sub (float_mul x 2000) 1000)))
         in or_raise (getitem obj ''msg_type'') n (\<lambda>t1.
            or_raise (as_index t1) n (\<lambda>i.
            or_raise (list_getitem n i) n (\<lambda>v.
            or_raise (list_setitem n i (v + 1)) n (\<lambda>n1.
            or_raise (getitem obj ''msg_type'') n1 (\<lambda>t2.
            or_raise (as_index t2) n1 (\<lambda>j.
            or_raise (list_getitem n1 j) n1 (\<lambda>s.
            (Inr (setitem (setitem obj ''sequence'' (PInt s)) ''timestamp'' (PStr ts)),
             n1))))))))))"

definition json_dumps :: "dict \<Rightarrow> payload" where
  "json_dumps obj = JsonObject obj"

text \<open>Lines 96 to 104: the \<open>try\<close> around \<open>put_record\<close> and its \<open>except Exception\<close>.\<close>

definition json_send :: "args \<Rightarrow> env \<Rightarrow> dict \<Rightarrow> world \<Rightarrow> world" where
  "json_send a c obj w =
     (case call_put_record c (stream_name a) (json_dumps obj) ''123'' w of
        (None, w1) \<Rightarrow>
          if \<not> silent a then emit (Print (SentData obj (stream_name a))) w1 else w1
      | (Some e, w1) \<Rightarrow>
          emit (Print (ExceptionWas e))
            (emit (Print (PutRecordFailed (json_dumps obj) (stream_name a))) w1))"

text \<open>One pass through the body of \<open>while True\<close>, lines 80 to 107.\<close>

definition json_iteration ::
  "args \<Rightarrow> env \<Rightarrow> rat \<Rightarrow> int list \<times> world \<Rightarrow> unit outcome \<times> (int list \<times> world)" where
  "json_iteration a c sleep_s s =
     (let (n, w) = s;
          (r, w1) = call_randint c w;
          (x, w2) = call_random c w1;
          (ts, w3) = call_now c w2
      in case create_object n r x ts of
           (Inl e, n1) \<Rightarrow> (Raises e, (n1, w3))
         | (Inr obj, n1) \<Rightarrow>
             (case time_sleep c sleep_s (json_send a c obj w3) of
                (Returns u, w4) \<Rightarrow> (Returns (), (n1, w4))
              | (Raises e, w4) \<Rightarrow> (Raises e, (n1, w4))
              | (Running, w4) \<Rightarrow> (Running, (n1, w4))))"

text \<open>
  The loop \<open>while True\<close>, observed for \<open>fuel\<close> iterations: \<open>Running\<close> with the state
  after them when none of them raised.
\<close>

fun json_emission_loop ::
  "args \<Rightarrow> env \<Rightarrow> rat \<Rightarrow> nat \<Rightarrow> int list \<times> world \<Rightarrow> unit outcome \<times> (int list \<times> world)" where
  "json_emission_loop a c sleep_s 0 s = (Running, s)"
| "json_emission_loop a c sleep_s (Suc fuel) s =
     (case json_iteration a c sleep_s s of
        (Returns u, s1) \<Rightarrow> json_emission_loop a c sleep_s fuel s1
      | (Raises e, s1) \<Rightarrow> (Raises e, s1)
      | (Running, s1) \<Rightarrow> (Running, s1))"

text \<open>Line 76: \<open>0.0 if args.period is None else args.period / 1000\<close>.\<close>

definition json_sleep_s :: "args \<Rightarrow> exc + rat" where
  "json_sleep_s a = (case period a of None \<Rightarrow> Inr 0 | Some p \<Rightarrow> int_true_div p 1000)"

text \<open>
  Lines 74 to 107 of \<open>main\<close>, entered once \<open>connect_to_stream\<close> returned true. An
  exception of line 76 ends \<open>main\<close> before the loop.
\<close>

definition json_emission ::
  "args \<Rightarrow> env \<Rightarrow> nat \<Rightarrow> world \<Rightarrow> unit outcome \<times> (int list \<times> world)" where
  "json_emission a c fuel w =
     (let n = [0, 0, 0]
      in case json_sleep_s a of
           Inl e \<Rightarrow> (Raises e, (n, w))
         | Inr sleep_s \<Rightarrow>
             (let w1 = (if silent a then emit (Print (SendingEvery sleep_s)) w else w)
              in json_emission_loop a c sleep_s fuel (n, w1)))"

definition json_producer_main :: "args \<Rightarrow> env \<Rightarrow> nat \<Rightarrow> world \<Rightarrow> unit outcome \<times> world" where
  "json_producer_main a c fuel w =
     (case connect_to_stream c (stream_name a) fuel
             (emit (Print (Connecting (stream_name a) (region a))) w) of
        (Returns ok, w1) \<Rightarrow>
          if \<not> ok then (Returns (), w1)
          else (case json_emission a c fuel w1 of (r, (n, w2)) \<Rightarrow> (r, w2))
      | (Raises e, w1) \<Rightarrow> (Raises e, w1)
      | (Running, w1) \<Rightarrow> (Running, w1))"

section \<open>The fixed-batch emission loop (\<^verbatim>\<open>data_producer.py\<close>)\<close>

text \<open>Lines 78 to 87: the objects that are sent over and over again.\<close>

fun build_objects :: "env \<Rightarrow> int list \<Rightarrow> dict list \<Rightarrow> world \<Rightarrow> dict list \<times> world" where
  "build_objects c [] objects w = (objects, w)"
| "build_objects c (i # rest) objects w =
     (let (enc, w1) = call_np_randint c w;
          (mot, w2) = call_np_randint c w1;
          (ts, w3) = call_now c w2;
          obj = setitem [] ''msg_type'' (PInt 3);
          obj = setitem obj ''encoder'' (PInt enc);
          obj = setitem obj ''motor'' (PInt mot);
          obj = setitem obj ''timestamp'' (PStr ts);
          obj = setitem obj ''encoder_counter'' (PInt (i * 100));
          obj = setitem obj ''motor_counter'' (PInt i)
      in build_objects c rest (objects @ [obj]) w3)"

text \<open>Lines 93 to 96: the inner \<open>for\<close> loop over the objects of one message.\<close>

fun restamp ::
  "env \<Rightarrow> int list \<Rightarrow> dict list \<times> int \<times> world \<Rightarrow> unit outcome \<times> (dict list \<times> int \<times> world)" where
  "restamp c [] s = (Returns (), s)"
| "restamp c (i # rest) s =
     (let (objects, counter, w) = s;
          (ts, w1) = call_now c w
      in or_stop (list_getitem objects i) (objects, counter, w1) (\<lambda>o1.
         or_stop (list_setitem objects i (setitem o1 ''timestamp'' (PStr ts)))
           (objects, counter, w1) (\<lambda>objects1.
         or_stop (list_getitem objects1 i) (objects1, counter, w1) (\<lambda>o2.
         or_stop (list_setitem objects1 i (setitem o2 ''motor_counter'' (PInt counter)))
           (objects1, counter, w1) (\<lambda>objects2.
         restamp c rest (objects2, counter + 1, w1))))))"

definition json_dumps_list :: "dict list \<Rightarrow> payload" where
  "json_dumps_list objects = JsonArray objects"

text \<open>Lines 98 to 106: the \<open>try\<close> around \<open>put_record\<close> and its \<open>except Exception\<close>.\<close>

definition data_send :: "args \<Rightarrow> env \<Rightarrow> dict list \<Rightarrow> world \<Rightarrow> world" where
  "data_send a c objects w =
     (case call_put_record c (stream_name a) (json_dumps_list objects) ''SergiRamis'' w of
        (None, w1) \<Rightarrow> w1
      | (Some e, w1) \<Rightarrow>
          emit (Print (ExceptionWas e)) (emit (Print (PutSensorDataFailed (stream_name a))) w1))"

definition data_iteration ::
  "args \<Rightarrow> env \<Rightarrow> rat \<Rightarrow> dict list \<times> int \<times> world
     \<Rightarrow> unit outcome \<times> (dict list \<times> int \<times> world)" where
  "data_iteration a c sleep_s s =
     (case restamp c (py_range (objects_per_message a)) s of
        (Returns u, (objects, counter, w1)) \<Rightarrow>
          (case time_sleep c sleep_s (data_send a c objects w1) of
             (Returns u, w2) \<Rightarrow> (Returns (), (objects, counter, w2))
           | (Raises e, w2) \<Rightarrow> (Raises e, (objects, counter, w2))
           | (Running, w2) \<Rightarrow> (Running, (objects, counter, w2)))
      | (Raises e, s1) \<Rightarrow> (Raises e, s1)
      | (Running, s1) \<Rightarrow> (Running, s1))"

fun data_emission_loop ::
  "args \<Rightarrow> env \<Rightarrow> rat \<Rightarrow> nat \<Rightarrow> dict list \<times> int \<times> world
     \<Rightarrow> unit outcome \<times> (dict list \<times> int \<times> world)" where
  "data_emission_loop a c sleep_s 0 s = (Running, s)"
| "data_emission_loop a c sleep_s (Suc fuel) s =
     (case data_iteration a c sleep_s s of
        (Returns u, s1) \<Rightarrow> data_emission_loop a c sleep_s fuel s1
      | (Raises e, s1) \<Rightarrow> (Raises e, s1)
      | (Running, s1) \<Rightarrow> (Running, s1))"

text \<open>
  Line 90: \<open>0.0 if args.period is None or args.period < 0 else args.period / 1000.0\<close>.
\<close>

definition data_sleep_s :: "args \<Rightarrow> exc + rat" where
  "data_sleep_s a =
     (case period a of
        None \<Rightarrow> Inr 0
      | Some p \<Rightarrow>
          if p < 0 then Inr 0
          else (case int_to_float p of
                  Inl e \<Rightarrow> Inl e
                | Inr x \<Rightarrow> Inr (float_div x 1000)))"

text \<open>
  Lines 77 to 107 of \<open>main\<close>, entered once \<open>connect_to_stream\<close> returned true. An
  exception of line 90 ends \<open>main\<close> after the objects are built and before the loop
  (and before \<open>counter = 0\<close>, which the state shows as 0).
\<close>

definition data_emission ::
  "args \<Rightarrow> env \<Rightarrow> nat \<Rightarrow> world \<Rightarrow> unit outcome \<times> (dict list \<times> int \<times> world)" where
  "data_emission a c fuel w =
     (case build_objects c (py_range (objects_per_message a)) [] w of
        (objects, w1) \<Rightarrow>
          (case data_sleep_s a of
             Inl e \<Rightarrow> (Raises e, (objects, 0, w1))
           | Inr sleep_s \<Rightarrow> data_emission_loop a c sleep_s fuel (objects, 0, w1)))"

definition data_producer_main :: "args \<Rightarrow> env \<Rightarrow> nat \<Rightarrow> world \<Rightarrow> unit outcome \<times> world" where
  "data_producer_main a c fuel w =
     (case connect_to_stream c (stream_name a) fuel
             (emit (Print (Connecting (stream_name a) (region a))) w) of
        (Returns ok, w1) \<Rightarrow>
          if \<not> ok then (Returns (), w1)
          else (case data_emission a c fuel w1 of (r, (objects, counter, w2)) \<Rightarrow> (r, w2))
      | (Raises e, w1) \<Rightarrow> (Raises e, w1)
      | (Running, w1) \<Rightarrow> (Running, w1))"

section \<open>Whether a sleep returns\<close>

definition sleep_accepted :: "env \<Rightarrow> rat \<Rightarrow> bool" where
  "sleep_accepted c s = (sleep_refused c s = None \<and> 0 \<le> s)"

definition sleep_error :: "env \<Rightarrow> rat \<Rightarrow> exc" where
  "sleep_error c s = (case sleep_refused c s of Some r \<Rightarrow> refusal_error r | None \<Rightarrow> ValueError)"

text \<open>
  The number of passes through a loop body that ends in \<open>time.sleep(s)\<close>, out of
  \<open>fuel\<close> observed: all of them when the sleep returns, the first one only when it
  raises.
\<close>

definition passes :: "env \<Rightarrow> rat \<Rightarrow> nat \<Rightarrow> nat" where
  "passes c s fuel = (if sleep_accepted c s then fuel else min 1 fuel)"

section \<open>Observations on a trace\<close>

fun is_create :: "event \<Rightarrow> bool" where
  "is_create (CreateStream name shards) = True"
| "is_create ev = False"

text \<open>What \<open>wait_for_stream\<close> may do: look up, sleep, print.\<close>

fun is_wait_event :: "event \<Rightarrow> bool" where
  "is_wait_event (DescribeStream name) = True"
| "is_wait_event (Sleep s) = True"
| "is_wait_event (Print m) = True"
| "is_wait_event ev = False"

text \<open>The \<open>Data\<close> of the \<open>put_record\<close> calls of a trace, in order.\<close>

fun sent :: "event list \<Rightarrow> payload list" where
  "sent [] = []"
| "sent (PutRecord name d key # evs) = d # sent evs"
| "sent (ev # evs) = sent evs"

text \<open>
  \<open>random.random()\<close> returns a multiple of \<open>2\<^sup>-\<^sup>5\<^sup>3\<close> in \<open>[0.0, 1.0)\<close>.
\<close>

definition unit_float :: "rat \<Rightarrow> bool" where
  "unit_float x = (0 \<le> x \<and> x < 1 \<and> of_int \<lfloor>x * 2 ^ 53\<rfloor> = x * 2 ^ 53)"

text \<open>The message type that line 83 of \<^verbatim>\<open>json_producer.py\<close> derives from the draw \<open>r\<close>.\<close>

definition drawn_type :: "int \<Rightarrow> nat" where
  "drawn_type r = (if r < 401 then 0 else (if r < 501 then 1 else 2))"

text \<open>
  The value that lines 84 to 87 store under \<open>value\<close>, and the object that one pass
  through lines 81 to 90 builds from the counters \<open>n\<close> and the next draws.
\<close>

definition sample_value :: "int \<Rightarrow> rat \<Rightarrow> rat" where
  "sample_value r x =
     (if drawn_type r = 1 then float_of_int (py_int (float_mul x 256))
      else float_sub (float_mul x 2000) 1000)"

definition next_object :: "env \<Rightarrow> int list \<Rightarrow> world \<Rightarrow> dict" where
  "next_object c n w =
     [(''msg_type'', PInt (int (drawn_type (random_randint c (n_randint w))))),
      (''value'', PFloat (sample_value (random_randint c (n_randint w))
                                       (random_random c (n_random w)))),
      (''sequence'', PInt (n ! drawn_type (random_randint c (n_randint w)) + 1)),
      (''timestamp'', PStr (datetime_now c (n_now w)))]"

text \<open>Reading an int field of a published object.\<close>

definition int_field :: "string \<Rightarrow> dict \<Rightarrow> int option" where
  "int_field k d = (case map_of d k of Some (PInt i) \<Rightarrow> Some i | Some v \<Rightarrow> None | None \<Rightarrow> None)"

text \<open>
  \<open>same_type_in_sequence a b\<close>: when the earlier object \<open>a\<close> and the later object \<open>b\<close>
  carry the same \<open>msg_type\<close>, the \<open>sequence\<close> of \<open>a\<close> is below the \<open>sequence\<close> of \<open>b\<close>.
\<close>

definition same_type_in_sequence :: "dict \<Rightarrow> dict \<Rightarrow> bool" where
  "same_type_in_sequence a b =
     (int_field ''msg_type'' a = int_field ''msg_type'' b \<longrightarrow>
        (case (int_field ''sequence'' a, int_field ''sequence'' b) of
           (Some p, Some q) \<Rightarrow> p < q
         | (Some p, None) \<Rightarrow> False
         | (None, q) \<Rightarrow> False))"

section \<open>Concrete runs\<close>

definition start :: world where
  "start = \<lparr>n_describe = 0, n_create = 0, n_put = 0, n_randint = 0, n_random = 0,
             n_np_randint = 0, n_now = 0, trace = []\<rparr>"

text \<open>
  A backend whose stream is there and active, and that accepts every record, on a
  platform that refuses a sleep of more than \<open>9 * 10\<^sup>9\<close> seconds.
\<close>

definition active_env :: env where
  "active_env = \<lparr>describe_stream = (\<lambda>k. Inr ''ACTIVE''),
                  create_stream = (\<lambda>k. None),
                  put_record = (\<lambda>k. None),
                  random_randint = (\<lambda>k. 1),
                  random_random = (\<lambda>k. 0),
                  np_random_randint = (\<lambda>k. 0),
                  datetime_now = (\<lambda>k. ''now''),
                  sleep_refused = (\<lambda>s. if 9000000000 < \<bar>s\<bar> then Some OutOfRange else None)\<rparr>"

text \<open>The stream is missing at first, is being created for two polls, then is active.\<close>

definition absent_env :: env where
  "absent_env = active_env\<lparr>describe_stream :=
     (\<lambda>k. if k = 0 then Inl ResourceNotFoundException
          else if k < 3 then Inr ''CREATING'' else Inr ''ACTIVE'')\<rparr>"

definition deleting_env :: env where
  "deleting_env = active_env\<lparr>describe_stream := (\<lambda>k. Inr ''DELETING'')\<rparr>"

text \<open>The stream is active, but the first lookup is throttled by the backend.\<close>

definition throttled_env :: env where
  "throttled_env = active_env\<lparr>describe_stream :=
     (\<lambda>k. if k = 0 then Inl LimitExceededException else Inr ''ACTIVE'')\<rparr>"

definition some_args :: args where
  "some_args = \<lparr>stream_name = ''motor'', region = ''us-east-1'', period = None,
                 silent = False, objects_per_message = 2\<rparr>"

text \<open>Every \<open>put_record\<close> is rejected by the backend.\<close>

definition failing_put_env :: env where
  "failing_put_env = active_env\<lparr>put_record := (\<lambda>k. Some ProvisionedThroughputExceededException)\<rparr>"

definition negative_period_args :: args where
  "negative_period_args = some_args\<lparr>period := Some (- 1)\<rparr>"


text \<open>The draws give message type 0 twice and message type 1 from then on.\<close>

definition two_then_one_env :: env where
  "two_then_one_env = active_env\<lparr>random_randint := (\<lambda>k. if k < 2 then 1 else 401)\<rparr>"

text \<open>
  The first lookup is throttled; the stream turns out to be in creation for two
  polls and active after that.
\<close>

definition throttled_creating_env :: env where
  "throttled_creating_env = active_env\<lparr>describe_stream :=
     (\<lambda>k. if k = 0 then Inl LimitExceededException
          else if k < 3 then Inr ''CREATING'' else Inr ''ACTIVE'')\<rparr>"

text \<open>The first lookup is throttled and the create request is refused.\<close>

definition refused_create_env :: env where
  "refused_create_env = throttled_env\<lparr>create_stream := (\<lambda>k. Some ResourceInUseException)\<rparr>"


section \<open>Rounding to binary64\<close>

lemma round_half_even_of_int: "round_half_even (of_int z) = z"
  by (simp add: round_half_even_def)

lemma round_half_even_mono: "p \<le> q \<Longrightarrow> round_half_even p \<le> round_half_even q"
proof -
  assume pq: "p \<le> q"
  have fl: "\<lfloor>p\<rfloor> \<le> \<lfloor>q\<rfloor>" using pq by (rule floor_mono)
  have lo: "\<And>x. \<lfloor>x\<rfloor> \<le> round_half_even x" by (simp add: round_half_even_def Let_def)
  have hi: "\<And>x. round_half_even x \<le> \<lfloor>x\<rfloor> + 1" by (simp add: round_half_even_def Let_def)
  show ?thesis
  proof (cases "\<lfloor>p\<rfloor> = \<lfloor>q\<rfloor>")
    case True
    then show ?thesis using pq by (auto simp: round_half_even_def Let_def)
  next
    case False
    then have "\<lfloor>p\<rfloor> + 1 \<le> \<lfloor>q\<rfloor>" using fl by linarith
    then show ?thesis using lo[of q] hi[of p] by linarith
  qed
qed

lemma round_half_even_bounds: "of_int a \<le> q \<Longrightarrow> q \<le> of_int b \<Longrightarrow> a \<le> round_half_even q \<and> round_half_even q \<le> b"
  using round_half_even_mono[of "of_int a" q] round_half_even_mono[of q "of_int b"]
  by (simp add: round_half_even_of_int)

lemma float_exponent_bounds:
  assumes "y \<noteq> 0"
  shows "2 powi (float_exponent y) \<le> \<bar>y\<bar> \<and> \<bar>y\<bar> < 2 powi (float_exponent y + 1)"
proof -
  obtain a b where q: "quotient_of \<bar>y\<bar> = (a, b)" by (cases "quotient_of \<bar>y\<bar>")
  have b: "0 < b" using q by (rule quotient_of_denom_pos)
  have y: "\<bar>y\<bar> = of_int a / of_int b" using q by (rule quotient_of_div)
  have ypos: "0 < \<bar>y\<bar>" using assms by simp
  have a: "0 < a" using ypos b unfolding y by (simp add: zero_less_divide_iff)
  define d where "d = bitlen a - bitlen b"
  have ba: "1 \<le> bitlen a" using a bitlen_eq_zero_iff[of a] bitlen_nonneg[of a] by linarith
  have bb: "1 \<le> bitlen b" using b bitlen_eq_zero_iff[of b] bitlen_nonneg[of b] by linarith
  have A: "(2::rat) powi (bitlen a - 1) \<le> of_int a \<and> of_int a < (2::rat) powi (bitlen a)"
  proof -
    have "(2::int) ^ nat (bitlen a - 1) \<le> a \<and> a < 2 ^ nat (bitlen a)" using bitlen_bounds[OF a] .
    then have "(of_int ((2::int) ^ nat (bitlen a - 1)) :: rat) \<le> of_int a \<and> (of_int a :: rat) < of_int (2 ^ nat (bitlen a))"
      by (metis of_int_le_iff of_int_less_iff)
    then show ?thesis using ba by (simp add: power_int_def)
  qed
  have B: "(2::rat) powi (bitlen b - 1) \<le> of_int b \<and> of_int b < (2::rat) powi (bitlen b)"
  proof -
    have "(2::int) ^ nat (bitlen b - 1) \<le> b \<and> b < 2 ^ nat (bitlen b)" using bitlen_bounds[OF b] .
    then have "(of_int ((2::int) ^ nat (bitlen b - 1)) :: rat) \<le> of_int b \<and> (of_int b :: rat) < of_int (2 ^ nat (bitlen b))"
      by (metis of_int_le_iff of_int_less_iff)
    then show ?thesis using bb by (simp add: power_int_def)
  qed
  have bpos: "(0::rat) < of_int b" using b by simp
  have up: "\<bar>y\<bar> < 2 powi (d + 1)"
  proof -
    have "of_int a < (2::rat) powi (bitlen a)" using A by simp
    also have "\<dots> = 2 powi (d + 1) * 2 powi (bitlen b - 1)"
      by (simp add: d_def power_int_add[symmetric])
    also have "\<dots> \<le> 2 powi (d + 1) * of_int b"
      using B by (intro mult_left_mono) auto
    finally show ?thesis unfolding y using bpos by (simp add: pos_divide_less_eq)
  qed
  have lo: "2 powi (d - 1) < \<bar>y\<bar>"
  proof -
    have "2 powi (d - 1) * of_int b < 2 powi (d - 1) * (2::rat) powi (bitlen b)"
      using B by (intro mult_strict_left_mono) auto
    also have "\<dots> = 2 powi (bitlen a - 1)"
      by (simp add: d_def power_int_add[symmetric])
    also have "\<dots> \<le> of_int a" using A by simp
    finally show ?thesis unfolding y using bpos by (simp add: pos_less_divide_eq)
  qed
  show ?thesis
  proof (cases "2 powi d \<le> \<bar>y\<bar>")
    case True
    then have "float_exponent y = d" by (simp add: float_exponent_def q d_def)
    then show ?thesis using True up by simp
  next
    case False
    then have "float_exponent y = d - 1" by (simp add: float_exponent_def q d_def)
    then show ?thesis using False lo by simp
  qed
qed

lemma powi2_less_imp: "(2::rat) powi m < 2 powi n \<Longrightarrow> m < n"
  using power_int_increasing[of n m "2::rat"] by (cases "m < n") auto

lemma float_exponent_unique:
  assumes "2 powi e \<le> \<bar>y\<bar>" and "\<bar>y\<bar> < 2 powi (e + 1)"
  shows "float_exponent y = e"
proof -
  have y0: "y \<noteq> 0"
  proof
    assume "y = 0"
    then have "2 powi e \<le> (0::rat)" using assms(1) by simp
    moreover have "(0::rat) < 2 powi e" by simp
    ultimately show False by linarith
  qed
  let ?f = "float_exponent y"
  have B: "2 powi ?f \<le> \<bar>y\<bar>" "\<bar>y\<bar> < 2 powi (?f + 1)"
    using float_exponent_bounds[OF y0] by auto
  have "(2::rat) powi e < 2 powi (?f + 1)" using assms(1) B(2) by linarith
  then have 1: "e < ?f + 1" by (rule powi2_less_imp)
  have "(2::rat) powi ?f < 2 powi (e + 1)" using assms(2) B(1) by linarith
  then have 2: "?f < e + 1" by (rule powi2_less_imp)
  show ?thesis using 1 2 by linarith
qed

lemma float_exponent_mono:
  assumes "x \<noteq> 0" "\<bar>x\<bar> \<le> \<bar>y\<bar>"
  shows "float_exponent x \<le> float_exponent y"
proof -
  have y0: "y \<noteq> 0" using assms by auto
  have "(2::rat) powi float_exponent x \<le> \<bar>x\<bar>" using float_exponent_bounds[OF assms(1)] by simp
  also have "\<dots> \<le> \<bar>y\<bar>" by fact
  also have "\<dots> < 2 powi (float_exponent y + 1)" using float_exponent_bounds[OF y0] by simp
  finally have "float_exponent x < float_exponent y + 1" by (rule powi2_less_imp)
  then show ?thesis by simp
qed

lemma fl_pos_bounds:
  assumes "0 < y"
  shows "2 powi float_exponent y \<le> fl y \<and> fl y \<le> 2 powi (float_exponent y + 1)"
proof -
  let ?e = "float_exponent y"
  let ?u = "(2::rat) powi (?e - 52)"
  have y0: "y \<noteq> 0" using assms by simp
  have u: "0 < ?u" by (simp add: power_int_def)
  have B: "2 powi ?e \<le> y" "y < 2 powi (?e + 1)"
    using float_exponent_bounds[OF y0] assms by auto
  have e1: "(2::rat) powi ?e = of_int (2 ^ 52) * ?u"
    using power_int_add[of "2::rat" 52 "?e - 52"] by simp
  have e2: "(2::rat) powi (?e + 1) = of_int (2 ^ 53) * ?u"
    using power_int_add[of "2::rat" 53 "?e - 52"] by (simp add: add.commute)
  have "of_int (2 ^ 52) \<le> y / ?u" using B(1) u unfolding e1 by (simp add: pos_le_divide_eq)
  moreover have "y / ?u \<le> of_int (2 ^ 53)" using B(2) u unfolding e2 by (simp add: pos_divide_le_eq)
  ultimately have R: "2 ^ 52 \<le> round_half_even (y / ?u) \<and> round_half_even (y / ?u) \<le> 2 ^ 53"
    by (rule round_half_even_bounds)
  have F: "fl y = of_int (round_half_even (y / ?u)) * ?u" using y0 by (simp add: fl_def Let_def)
  have "of_int (2 ^ 52) * ?u \<le> of_int (round_half_even (y / ?u)) * ?u"
    using R u by (intro mult_right_mono) auto
  moreover have "of_int (round_half_even (y / ?u)) * ?u \<le> of_int (2 ^ 53) * ?u"
    using R u by (intro mult_right_mono) auto
  ultimately show ?thesis unfolding F e1 e2 by simp
qed

lemma round_half_even_minus: "round_half_even (- q) = - round_half_even q"
proof (cases "q \<in> \<int>")
  case True
  then obtain z where "q = of_int z" by (auto elim: Ints_cases)
  then show ?thesis using round_half_even_of_int[of "- z"] round_half_even_of_int[of z] by simp
next
  case False
  have ne: "q \<noteq> of_int \<lfloor>q\<rfloor>"
  proof
    assume e: "q = of_int \<lfloor>q\<rfloor>"
    have "(of_int \<lfloor>q\<rfloor> :: rat) \<in> \<int>" by simp
    then have "q \<in> \<int>" by (subst e)
    then show False using False by simp
  qed
  have c: "\<lceil>q\<rceil> = \<lfloor>q\<rfloor> + 1" using ne by (simp add: ceiling_altdef)
  have fm: "\<lfloor>- q\<rfloor> = - \<lfloor>q\<rfloor> - 1" using c by (simp add: ceiling_def)
  have fr: "0 < q - of_int \<lfloor>q\<rfloor>" using ne of_int_floor_le[of q] by linarith
  show ?thesis using fr unfolding round_half_even_def Let_def fm
    by (auto simp: algebra_simps)
qed

lemma float_exponent_minus: "float_exponent (- y) = float_exponent y"
  by (simp add: float_exponent_def)

lemma fl_minus: "fl (- y) = - fl y"
  by (simp add: fl_def Let_def float_exponent_minus round_half_even_minus)

lemma fl_zero: "fl 0 = 0" by (simp add: fl_def)

lemma fl_pos: "0 < y \<Longrightarrow> 0 < fl y"
proof -
  assume "0 < y"
  then have "2 powi float_exponent y \<le> fl y" using fl_pos_bounds by blast
  moreover have "(0::rat) < 2 powi float_exponent y" by (simp add: power_int_def)
  ultimately show ?thesis by linarith
qed

lemma fl_neg: "y < 0 \<Longrightarrow> fl y < 0"
  using fl_pos[of "- y"] by (simp add: fl_minus)

lemma fl_mono_pos:
  assumes "0 < x" "x \<le> y"
  shows "fl x \<le> fl y"
proof -
  have y: "0 < y" using assms by linarith
  have le: "float_exponent x \<le> float_exponent y"
    using float_exponent_mono[of x y] assms by simp
  show ?thesis
  proof (cases "float_exponent x = float_exponent y")
    case True
    let ?u = "(2::rat) powi (float_exponent y - 52)"
    have u: "0 < ?u" by (simp add: power_int_def)
    have "x / ?u \<le> y / ?u" using assms u by (simp add: divide_right_mono)
    then have "round_half_even (x / ?u) \<le> round_half_even (y / ?u)" by (rule round_half_even_mono)
    then have "of_int (round_half_even (x / ?u)) * ?u \<le> of_int (round_half_even (y / ?u)) * ?u"
      using u by (intro mult_right_mono) auto
    then show ?thesis using assms y True by (simp add: fl_def Let_def)
  next
    case False
    then have "float_exponent x + 1 \<le> float_exponent y" using le by linarith
    then have "(2::rat) powi (float_exponent x + 1) \<le> 2 powi float_exponent y"
      by (simp add: power_int_increasing)
    then show ?thesis using fl_pos_bounds[OF assms(1)] fl_pos_bounds[OF y] by linarith
  qed
qed

lemma fl_mono: "x \<le> y \<Longrightarrow> fl x \<le> fl y"
proof -
  assume xy: "x \<le> y"
  consider "0 < x" | "x \<le> 0" "0 \<le> y" | "y < 0" using xy by linarith
  then show ?thesis
  proof cases
    case 1 then show ?thesis using xy by (rule fl_mono_pos)
  next
    case 2
    have "fl x \<le> 0" using 2(1) fl_neg[of x] fl_zero by (cases "x = 0") auto
    moreover have "0 \<le> fl y" using 2(2) fl_pos[of y] fl_zero by (cases "y = 0") auto
    ultimately show ?thesis by linarith
  next
    case 3
    then have "fl (- y) \<le> fl (- x)" using xy by (intro fl_mono_pos) auto
    then show ?thesis by (simp add: fl_minus)
  qed
qed

lemma fl_exact:
  assumes "\<bar>k\<bar> < 2 ^ 53"
  shows "fl (of_int k * 2 powi j) = of_int k * 2 powi j"
proof (cases "k = 0")
  case True then show ?thesis by (simp add: fl_zero)
next
  case False
  let ?y = "of_int k * (2::rat) powi j"
  let ?e = "float_exponent ?y"
  have y0: "?y \<noteq> 0" using False by (simp add: power_int_def)
  have "2 powi ?e \<le> \<bar>?y\<bar>" using float_exponent_bounds[OF y0] by simp
  also have "\<bar>?y\<bar> = of_int \<bar>k\<bar> * 2 powi j" by (simp add: abs_mult power_int_def)
  also have "\<dots> < of_int (2 ^ 53) * 2 powi j"
    using assms by (intro mult_strict_right_mono) (auto simp: power_int_def)
  also have "\<dots> = 2 powi (53 + j)" using power_int_add[of "2::rat" 53 j] by simp
  finally have "?e < 53 + j" by (rule powi2_less_imp)
  then have n: "0 \<le> j - ?e + 52" by linarith
  have "?y / 2 powi (?e - 52) = of_int k * 2 powi (j - (?e - 52))"
    by (simp add: power_int_diff)
  also have "\<dots> = of_int (k * 2 ^ nat (j - ?e + 52))"
    using n by (simp add: power_int_def algebra_simps)
  finally have "round_half_even (?y / 2 powi (?e - 52)) = k * 2 ^ nat (j - ?e + 52)"
    by (simp only: round_half_even_of_int)
  then have "fl ?y = of_int (k * 2 ^ nat (j - ?e + 52)) * 2 powi (?e - 52)"
    using y0 by (simp add: fl_def Let_def)
  also have "\<dots> = of_int k * (2 powi (j - ?e + 52) * 2 powi (?e - 52))"
    using n by (simp add: power_int_def)
  also have "2 powi (j - ?e + 52) * (2::rat) powi (?e - 52) = 2 powi j"
    by (simp add: power_int_add[symmetric])
  finally show ?thesis .
qed

lemma fl_of_int: "\<bar>k\<bar> < 2 ^ 53 \<Longrightarrow> fl (of_int k) = of_int k"
  using fl_exact[of k 0] by simp

lemma unit_float_multiple:
  assumes "unit_float x"
  shows "\<exists>m::nat. m < 2 ^ 53 \<and> x = of_nat m / 2 ^ 53"
proof -
  define z where "z = \<lfloor>x * 2 ^ 53\<rfloor>"
  have x: "0 \<le> x" "x < 1" using assms unfolding unit_float_def by blast+
  have e: "of_int z = x * 2 ^ 53" using assms unfolding unit_float_def z_def by blast
  have z0: "0 \<le> z" unfolding z_def using x(1) by simp
  have "x * 2 ^ 53 < 2 ^ 53" using x(2) by simp
  then have "of_int z < (of_int (2 ^ 53) :: rat)" using e by simp
  then have z1: "z < 2 ^ 53" by (simp only: of_int_less_iff)
  have m: "nat z < 2 ^ 53" using z0 z1 by (simp add: nat_less_iff)
  have "(of_nat (nat z) :: rat) = x * 2 ^ 53" using z0 e by simp
  then have "x = of_nat (nat z) / 2 ^ 53" by simp
  then show ?thesis using m by blast
qed

lemma unit_float_bounds: "unit_float x \<Longrightarrow> 0 \<le> x \<and> x \<le> 1 - 1 / 2 ^ 53"
proof -
  assume "unit_float x"
  then obtain m :: nat where m: "m < 2 ^ 53" "x = of_nat m / 2 ^ 53"
    using unit_float_multiple by blast
  have "m \<le> 2 ^ 53 - 1" using m(1) by simp
  then have "(of_nat m :: rat) \<le> of_nat (2 ^ 53 - 1)" by (simp only: of_nat_le_iff)
  then have "(of_nat m :: rat) \<le> 2 ^ 53 - 1" by simp
  then have "x \<le> (2 ^ 53 - 1) / 2 ^ 53" unfolding m(2) by (simp add: divide_right_mono)
  then show ?thesis unfolding m(2) by simp
qed

lemma float_mul_256:
  assumes "unit_float x"
  shows "float_mul x 256 = x * 256"
proof -
  obtain m :: nat where m: "m < 2 ^ 53" "x = of_nat m / 2 ^ 53"
    using unit_float_multiple[OF assms] by blast
  define z where "z = of_int (int m) * (2::rat) powi (- 45)"
  have "\<bar>int m\<bar> < 2 ^ 53" using m(1) by simp
  then have fz: "fl z = z" unfolding z_def by (rule fl_exact)
  have "x * 256 = z" unfolding z_def m(2) by (simp add: power_int_minus)
  then show ?thesis using fz by (simp only: float_mul_def)
qed

lemma round_half_even_le: "q < of_int N + 1 / 2 \<Longrightarrow> round_half_even q \<le> N"
proof -
  assume q: "q < of_int N + 1 / 2"
  have "\<lfloor>q\<rfloor> < N + 1" using q by (subst floor_less_iff) simp
  then have f: "\<lfloor>q\<rfloor> \<le> N" by simp
  show ?thesis
  proof (cases "\<lfloor>q\<rfloor> = N")
    case True
    then show ?thesis using q by (simp add: round_half_even_def Let_def)
  next
    case False
    then have "\<lfloor>q\<rfloor> + 1 \<le> N" using f by linarith
    moreover have "round_half_even q \<le> \<lfloor>q\<rfloor> + 1" by (simp add: round_half_even_def Let_def)
    ultimately show ?thesis by linarith
  qed
qed

lemma fl_le:
  assumes "2 powi e \<le> y" "y < 2 powi (e + 1)" "y / 2 powi (e - 52) < of_int N + 1 / 2"
  shows "fl y \<le> of_int N * 2 powi (e - 52)"
proof -
  have "(0::rat) < 2 powi e" by simp
  then have y: "0 < y" using assms(1) by linarith
  have e: "float_exponent y = e" using assms(1,2) y by (intro float_exponent_unique) auto
  have "round_half_even (y / 2 powi (e - 52)) \<le> N" using assms(3) by (rule round_half_even_le)
  then have "of_int (round_half_even (y / 2 powi (e - 52))) * (2::rat) powi (e - 52) \<le> of_int N * 2 powi (e - 52)"
    by (intro mult_right_mono) auto
  then show ?thesis using y e by (simp add: fl_def Let_def)
qed

lemma fl_top: "fl (2000 - 2000 / 2 ^ 53) \<le> 2000 - 1 / 2 ^ 42"
proof -
  have "fl (2000 - 2000 / 2 ^ 53) \<le> of_int (125 * 2 ^ 46 - 1) * 2 powi (10 - 52)"
    by (rule fl_le) (simp_all add: power_int_minus)
  also have "\<dots> = 2000 - 1 / 2 ^ 42" by (simp add: power_int_minus)
  finally show ?thesis .
qed

lemma float_value_range:
  assumes "unit_float x"
  shows "- 1000 \<le> float_sub (float_mul x 2000) 1000 \<and> float_sub (float_mul x 2000) 1000 < 1000"
proof -
  have x: "0 \<le> x" "x \<le> 1 - 1 / 2 ^ 53" using unit_float_bounds[OF assms] by auto
  have "fl 0 \<le> fl (x * 2000)" using x(1) by (intro fl_mono) simp
  then have lo: "0 \<le> fl (x * 2000)" by (simp add: fl_zero)
  have "x * 2000 \<le> 2000 - 2000 / 2 ^ 53" using x(2) by simp
  then have "fl (x * 2000) \<le> fl (2000 - 2000 / 2 ^ 53)" by (rule fl_mono)
  then have hi: "fl (x * 2000) \<le> 2000 - 1 / 2 ^ 42" using fl_top by linarith
  have "fl (of_int (- 1000)) \<le> fl (fl (x * 2000) - 1000)" using lo by (intro fl_mono) simp
  moreover have "fl (of_int (- 1000)) = of_int (- 1000)" by (rule fl_of_int) simp
  ultimately have 1: "- 1000 \<le> fl (fl (x * 2000) - 1000)" by simp
  have "fl (fl (x * 2000) - 1000) \<le> fl (of_int (1000 * 2 ^ 42 - 1) * 2 powi (- 42))"
    using hi by (intro fl_mono) (simp add: power_int_minus)
  moreover have "fl (of_int (1000 * 2 ^ 42 - 1) * 2 powi (- 42)) = of_int (1000 * 2 ^ 42 - 1) * 2 powi (- 42)"
    by (rule fl_exact) simp
  ultimately have 2: "fl (fl (x * 2000) - 1000) < 1000" by (simp add: power_int_minus)
  show ?thesis using 1 2 by (simp add: float_sub_def float_mul_def)
qed

lemma float_byte_value:
  assumes "unit_float x"
  shows "\<exists>k. 0 \<le> k \<and> k \<le> 255 \<and> float_of_int (py_int (float_mul x 256)) = of_int k"
proof -
  have x: "0 \<le> x" "x \<le> 1 - 1 / 2 ^ 53" using unit_float_bounds[OF assms] by auto
  let ?k = "\<lfloor>x * 256\<rfloor>"
  have p: "py_int (float_mul x 256) = ?k" using x(1) by (simp add: float_mul_256[OF assms] py_int_def)
  have k0: "0 \<le> ?k" using x(1) by simp
  have "x * 256 < 256" using x(2) by simp
  then have "?k < 256" by (simp add: floor_less_iff)
  then have k1: "?k \<le> 255" by simp
  have "fl (of_int ?k) = of_int ?k" using k0 k1 by (intro fl_of_int) simp
  then show ?thesis using k0 k1 p by (auto simp: float_of_int_def)
qed

section \<open>The provisioner: what it calls and when it returns\<close>

lemma time_sleep_accepted:
  "sleep_accepted c s \<Longrightarrow> time_sleep c s w = (Returns (), emit (Sleep s) w)"
  by (simp add: time_sleep_def sleep_accepted_def not_less[symmetric])

lemma time_sleep_refused:
  "\<not> sleep_accepted c s \<Longrightarrow> time_sleep c s w = (Raises (sleep_error c s), w)"
  by (cases "sleep_refused c s") (auto simp: time_sleep_def sleep_accepted_def sleep_error_def)

lemma sleep_error_kinds:
  "sleep_error c s = ValueError \<or> sleep_error c s = OverflowError \<or> sleep_error c s = OSError"
proof (cases "sleep_refused c s")
  case None
  then show ?thesis by (simp add: sleep_error_def)
next
  case (Some r)
  then show ?thesis by (cases r) (simp_all add: sleep_error_def)
qed

lemma trace_emit: "trace (emit ev w) = trace w @ [ev]" by (simp add: emit_def)
lemma n_describe_emit: "n_describe (emit ev w) = n_describe w" by (simp add: emit_def)
lemma n_create_emit: "n_create (emit ev w) = n_create w" by (simp add: emit_def)
lemma n_put_emit: "n_put (emit ev w) = n_put w" by (simp add: emit_def)

lemma lookup_trace:
  "wait_for_stream_lookup c name fuel w = (out, w') \<Longrightarrow>
     \<exists>rest. trace w' = trace w @ rest \<and> list_all is_wait_event rest"
proof (induction fuel arbitrary: w)
  case 0
  then show ?case by simp
next
  case (Suc fuel)
  show ?case
  proof (cases "describe_stream c (n_describe w)")
    case (Inr status)
    then show ?thesis using Suc.prems by (auto simp: describe_status_def trace_emit)
  next
    case (Inl e)
    show ?thesis
    proof (cases "e = KeyError")
      case True
      let ?w1 = "emit (DescribeStream name) (w\<lparr>n_describe := Suc (n_describe w)\<rparr>)"
      have "wait_for_stream_lookup c name fuel ?w1 = (out, w')"
        using Suc.prems Inl True by (simp add: describe_status_def)
      from Suc.IH[OF this] obtain rest where "trace w' = trace ?w1 @ rest" "list_all is_wait_event rest" by blast
      then show ?thesis by (auto simp: trace_emit)
    next
      case False
      then show ?thesis using Suc.prems Inl by (auto simp: describe_status_def trace_emit)
    qed
  qed
qed

lemma lookup_returns:
  "wait_for_stream_lookup c name fuel w = (Returns status, w') \<Longrightarrow>
     n_describe w < n_describe w' \<and> describe_stream c (n_describe w' - 1) = Inr status"
proof (induction fuel arbitrary: w)
  case 0
  then show ?case by simp
next
  case (Suc fuel)
  show ?case
  proof (cases "describe_stream c (n_describe w)")
    case (Inr s)
    then show ?thesis using Suc.prems by (auto simp: describe_status_def n_describe_emit)
  next
    case (Inl e)
    show ?thesis
    proof (cases "e = KeyError")
      case True
      let ?w1 = "emit (DescribeStream name) (w\<lparr>n_describe := Suc (n_describe w)\<rparr>)"
      have "wait_for_stream_lookup c name fuel ?w1 = (Returns status, w')"
        using Suc.prems Inl True by (simp add: describe_status_def)
      from Suc.IH[OF this] show ?thesis by (simp add: n_describe_emit)
    next
      case False
      then show ?thesis using Suc.prems Inl by (auto simp: describe_status_def)
    qed
  qed
qed

lemma poll_trace:
  "wait_for_stream_poll c name secs fuel status w = (out, w') \<Longrightarrow>
     \<exists>rest. trace w' = trace w @ rest \<and> list_all is_wait_event rest"
proof (induction fuel arbitrary: w status)
  case 0
  then show ?case by (auto split: if_splits)
next
  case (Suc fuel)
  show ?case
  proof (cases "status = ''ACTIVE''")
    case True
    then show ?thesis using Suc.prems by auto
  next
    case False
    show ?thesis
    proof (cases "\<not> sleep_accepted c secs")
      case True
      then show ?thesis using Suc.prems False by (auto simp: time_sleep_refused trace_emit)
    next
      case nonneg: False
      let ?w1 = "emit (Sleep secs) (emit (Print (StreamHasStatus name status secs)) w)"
      let ?w2 = "emit (DescribeStream name) (?w1\<lparr>n_describe := Suc (n_describe ?w1)\<rparr>)"
      show ?thesis
      proof (cases "describe_stream c (n_describe w)")
        case (Inl e)
        then show ?thesis using Suc.prems False nonneg
          by (auto simp: time_sleep_accepted describe_status_def trace_emit n_describe_emit)
      next
        case (Inr s)
        then have "wait_for_stream_poll c name secs fuel s ?w2 = (out, w')"
          using Suc.prems False nonneg
          by (simp add: time_sleep_accepted describe_status_def n_describe_emit)
        from Suc.IH[OF this] obtain rest where "trace w' = trace ?w2 @ rest" "list_all is_wait_event rest" by blast
        then show ?thesis by (auto simp: trace_emit)
      qed
    qed
  qed
qed

lemma poll_returns:
  "wait_for_stream_poll c name secs fuel status w = (Returns u, w') \<Longrightarrow>
     (status = ''ACTIVE'' \<and> w' = w) \<or>
     (n_describe w < n_describe w' \<and> describe_stream c (n_describe w' - 1) = Inr ''ACTIVE'')"
proof (induction fuel arbitrary: w status)
  case 0
  then show ?case by (auto split: if_splits)
next
  case (Suc fuel)
  show ?case
  proof (cases "status = ''ACTIVE''")
    case True
    then show ?thesis using Suc.prems by auto
  next
    case False
    show ?thesis
    proof (cases "\<not> sleep_accepted c secs")
      case True
      then show ?thesis using Suc.prems False by (auto simp: time_sleep_refused)
    next
      case nonneg: False
      let ?w1 = "emit (Sleep secs) (emit (Print (StreamHasStatus name status secs)) w)"
      let ?w2 = "emit (DescribeStream name) (?w1\<lparr>n_describe := Suc (n_describe ?w1)\<rparr>)"
      show ?thesis
      proof (cases "describe_stream c (n_describe w)")
        case (Inl e)
        then show ?thesis using Suc.prems False nonneg
          by (auto simp: time_sleep_accepted describe_status_def n_describe_emit)
      next
        case (Inr s)
        then have run: "wait_for_stream_poll c name secs fuel s ?w2 = (Returns u, w')"
          using Suc.prems False nonneg
          by (simp add: time_sleep_accepted describe_status_def n_describe_emit)
        have n2: "n_describe ?w2 = Suc (n_describe w)" by (simp add: n_describe_emit)
        from Suc.IH[OF run] show ?thesis
        proof
          assume "s = ''ACTIVE'' \<and> w' = ?w2"
          then show ?thesis using Inr n2 by simp
        next
          assume "n_describe ?w2 < n_describe w' \<and> describe_stream c (n_describe w' - 1) = Inr ''ACTIVE''"
          then show ?thesis using n2 by simp
        qed
      qed
    qed
  qed
qed

lemma wait_trace:
  "wait_for_stream c name fuel w = (out, w') \<Longrightarrow>
     \<exists>rest. trace w' = trace w @ rest \<and> list_all is_wait_event rest"
proof -
  assume run: "wait_for_stream c name fuel w = (out, w')"
  obtain o1 w1 where l: "wait_for_stream_lookup c name fuel w = (o1, w1)" by (cases "wait_for_stream_lookup c name fuel w")
  from lookup_trace[OF l] obtain r1 where r1: "trace w1 = trace w @ r1" "list_all is_wait_event r1" by blast
  show ?thesis
  proof (cases o1)
    case (Returns status)
    then have "wait_for_stream_poll c name 3 fuel status w1 = (out, w')" using run l by (simp add: wait_for_stream_def)
    from poll_trace[OF this] obtain r2 where "trace w' = trace w1 @ r2" "list_all is_wait_event r2" by blast
    then show ?thesis using r1 by auto
  next
    case (Raises e)
    then show ?thesis using run l r1 by (auto simp: wait_for_stream_def)
  next
    case Running
    then show ?thesis using run l r1 by (auto simp: wait_for_stream_def)
  qed
qed

lemma wait_returns:
  "wait_for_stream c name fuel w = (Returns u, w') \<Longrightarrow>
     n_describe w < n_describe w' \<and> describe_stream c (n_describe w' - 1) = Inr ''ACTIVE''"
proof -
  assume run: "wait_for_stream c name fuel w = (Returns u, w')"
  obtain o1 w1 where l: "wait_for_stream_lookup c name fuel w = (o1, w1)" by (cases "wait_for_stream_lookup c name fuel w")
  show ?thesis
  proof (cases o1)
    case (Returns status)
    then have p: "wait_for_stream_poll c name 3 fuel status w1 = (Returns u, w')" using run l by (simp add: wait_for_stream_def)
    have 1: "n_describe w < n_describe w1" "describe_stream c (n_describe w1 - 1) = Inr status"
      using lookup_returns l Returns by auto
    from poll_returns[OF p] show ?thesis using 1 by auto
  next
    case (Raises e)
    then show ?thesis using run l by (auto simp: wait_for_stream_def)
  next
    case Running
    then show ?thesis using run l by (auto simp: wait_for_stream_def)
  qed
qed

lemma create_and_wait_trace:
  assumes "create_and_wait c name fuel w = (out, w')"
  shows "\<exists>rest. trace w' = trace w @ [Print (CreatingStream name), CreateStream name 1] @ rest
                \<and> list_all is_wait_event rest"
proof -
  let ?w1 = "emit (CreateStream name 1)
               ((emit (Print (CreatingStream name)) w)\<lparr>n_create := Suc (n_create w)\<rparr>)"
  have t1: "trace ?w1 = trace w @ [Print (CreatingStream name), CreateStream name 1]"
    by (simp add: emit_def)
  show ?thesis
  proof (cases "create_stream c (n_create w)")
    case (Some e)
    then have "w' = ?w1" using assms by (simp add: create_and_wait_def call_create_stream_def n_create_emit)
    then show ?thesis using t1 by simp
  next
    case None
    obtain o2 w2 where r: "wait_for_stream c name fuel ?w1 = (o2, w2)" by (cases "wait_for_stream c name fuel ?w1")
    from wait_trace[OF r] obtain rest where rest: "trace w2 = trace ?w1 @ rest" "list_all is_wait_event rest" by blast
    have "w' = w2" using assms None r
      by (cases o2) (simp_all add: create_and_wait_def call_create_stream_def n_create_emit)
    then show ?thesis using rest t1 by simp
  qed
qed

lemma create_and_wait_returns:
  assumes "create_and_wait c name fuel w = (Returns b, w')"
  shows "b \<and> n_describe w < n_describe w' \<and> describe_stream c (n_describe w' - 1) = Inr ''ACTIVE''"
proof -
  let ?w1 = "emit (CreateStream name 1)
               ((emit (Print (CreatingStream name)) w)\<lparr>n_create := Suc (n_create w)\<rparr>)"
  have n1: "n_describe ?w1 = n_describe w" by (simp add: emit_def)
  show ?thesis
  proof (cases "create_stream c (n_create w)")
    case (Some e)
    then show ?thesis using assms by (simp add: create_and_wait_def call_create_stream_def n_create_emit)
  next
    case None
    obtain o2 w2 where r: "wait_for_stream c name fuel ?w1 = (o2, w2)" by (cases "wait_for_stream c name fuel ?w1")
    have "o2 = Returns () \<and> w2 = w' \<and> b" using assms None r
      by (cases o2) (simp_all add: create_and_wait_def call_create_stream_def n_create_emit)
    then show ?thesis using wait_returns[of c name fuel ?w1 "()" w'] r n1 by simp
  qed
qed

text \<open>Both loops end once the backend reports \<open>ACTIVE\<close>, given enough iterations.\<close>

lemma lookup_first:
  "describe_stream c (n_describe w) = Inr s \<Longrightarrow>
   wait_for_stream_lookup c name (Suc fuel) w =
     (Returns s, emit (DescribeStream name) (w\<lparr>n_describe := Suc (n_describe w)\<rparr>))"
  by (simp add: describe_status_def)

lemma poll_active: "wait_for_stream_poll c name secs fuel ''ACTIVE'' w = (Returns (), w)"
  by (cases fuel) simp_all

lemma poll_reaches_active:
  assumes "\<forall>j<k. \<exists>s. describe_stream c (n_describe w + j) = Inr s \<and> s \<noteq> ''ACTIVE''"
    and "describe_stream c (n_describe w + k) = Inr ''ACTIVE''"
    and "k < fuel" and "status \<noteq> ''ACTIVE''" and "sleep_accepted c 3"
  shows "\<exists>w'. wait_for_stream_poll c name 3 fuel status w = (Returns (), w') \<and>
               n_describe w' = n_describe w + k + 1 \<and>
               count_list (trace w') (Sleep 3) = count_list (trace w) (Sleep 3) + k + 1"
  using assms
proof (induction k arbitrary: w fuel status)
  case 0
  then show ?case
    by (cases fuel)
       (simp_all add: time_sleep_accepted describe_status_def n_describe_emit poll_active
                      trace_emit)
next
  case (Suc k)
  then obtain f where f: "fuel = Suc f" "k < f" by (cases fuel) auto
  from Suc.prems(1) obtain s where s: "describe_stream c (n_describe w) = Inr s" "s \<noteq> ''ACTIVE''"
    by force
  let ?w1 = "emit (Sleep 3) (emit (Print (StreamHasStatus name status 3)) w)"
  let ?w2 = "emit (DescribeStream name) (?w1\<lparr>n_describe := Suc (n_describe ?w1)\<rparr>)"
  have n2: "n_describe ?w2 = Suc (n_describe w)" by (simp add: n_describe_emit)
  have step: "wait_for_stream_poll c name 3 fuel status w = wait_for_stream_poll c name 3 f s ?w2"
    using Suc.prems(4,5) s f by (simp add: time_sleep_accepted describe_status_def n_describe_emit)
  have a1: "\<forall>j<k. \<exists>s. describe_stream c (n_describe ?w2 + j) = Inr s \<and> s \<noteq> ''ACTIVE''"
  proof (intro allI impI)
    fix j assume "j < k"
    then have "Suc j < Suc k" by simp
    with Suc.prems(1) have "\<exists>s. describe_stream c (n_describe w + Suc j) = Inr s \<and> s \<noteq> ''ACTIVE''" by blast
    then show "\<exists>s. describe_stream c (n_describe ?w2 + j) = Inr s \<and> s \<noteq> ''ACTIVE''" by (simp add: n2)
  qed
  have a2: "describe_stream c (n_describe ?w2 + k) = Inr ''ACTIVE''" using Suc.prems(2) by (simp add: n2)
  have t2: "count_list (trace ?w2) (Sleep 3) = count_list (trace w) (Sleep 3) + 1"
    by (simp add: trace_emit)
  from Suc.IH[OF a1 a2 f(2) s(2) Suc.prems(5)] obtain w' where
    "wait_for_stream_poll c name 3 f s ?w2 = (Returns (), w')" "n_describe w' = n_describe ?w2 + k + 1"
    "count_list (trace w') (Sleep 3) = count_list (trace ?w2) (Sleep 3) + k + 1" by blast
  then show ?case using step n2 t2 by simp
qed

lemma wait_reaches_active:
  assumes "\<forall>j<k. \<exists>s. describe_stream c (n_describe w + j) = Inr s \<and> s \<noteq> ''ACTIVE''"
    and "describe_stream c (n_describe w + k) = Inr ''ACTIVE''"
    and "k \<le> fuel" and "0 < fuel" and "sleep_accepted c 3"
  shows "\<exists>w'. wait_for_stream c name fuel w = (Returns (), w') \<and> n_describe w' = n_describe w + k + 1 \<and>
               count_list (trace w') (Sleep 3) = count_list (trace w) (Sleep 3) + k"
proof -
  obtain f where f: "fuel = Suc f" using assms(4) by (cases fuel) auto
  let ?w1 = "emit (DescribeStream name) (w\<lparr>n_describe := Suc (n_describe w)\<rparr>)"
  have n1: "n_describe ?w1 = Suc (n_describe w)" by (simp add: n_describe_emit)
  have t1: "count_list (trace ?w1) (Sleep 3) = count_list (trace w) (Sleep 3)"
    by (simp add: trace_emit)
  show ?thesis
  proof (cases k)
    case 0
    then have "describe_stream c (n_describe w) = Inr ''ACTIVE''" using assms(2) by simp
    then have "wait_for_stream c name fuel w = (Returns (), ?w1)"
      unfolding f wait_for_stream_def by (simp add: lookup_first del: wait_for_stream_lookup.simps)
    then show ?thesis using 0 n1 t1 by simp
  next
    case (Suc k')
    from assms(1) Suc obtain s where s: "describe_stream c (n_describe w) = Inr s" "s \<noteq> ''ACTIVE''"
      by force
    have a1: "\<forall>j<k'. \<exists>s. describe_stream c (n_describe ?w1 + j) = Inr s \<and> s \<noteq> ''ACTIVE''"
    proof (intro allI impI)
      fix j assume "j < k'"
      then have "Suc j < k" using Suc by simp
      with assms(1) have "\<exists>s. describe_stream c (n_describe w + Suc j) = Inr s \<and> s \<noteq> ''ACTIVE''" by blast
      then show "\<exists>s. describe_stream c (n_describe ?w1 + j) = Inr s \<and> s \<noteq> ''ACTIVE''" by (simp add: n1)
    qed
    have a2: "describe_stream c (n_describe ?w1 + k') = Inr ''ACTIVE''" using assms(2) Suc by (simp add: n1)
    have a3: "k' < fuel" using assms(3) Suc by simp
    from poll_reaches_active[OF a1 a2 a3 s(2) assms(5)] obtain w' where
      w': "wait_for_stream_poll c name 3 fuel s ?w1 = (Returns (), w')" "n_describe w' = n_describe ?w1 + k' + 1"
        "count_list (trace w') (Sleep 3) = count_list (trace ?w1) (Sleep 3) + k' + 1" by blast
    have "wait_for_stream c name fuel w = wait_for_stream_poll c name 3 fuel s ?w1"
      unfolding wait_for_stream_def using lookup_first[OF s(1), of name f] f by simp
    then show ?thesis using w' n1 t1 Suc by simp
  qed
qed

section \<open>Claims about the provisioner\<close>

text \<open>
  Claim C3. When the first lookup of \<open>connect_to_stream\<close> raises (the stream is
  reported absent), the calls that follow the lookup are: the print, exactly one
  \<open>create_stream\<close> with \<open>ShardCount=1\<close>, and after it only lookups, sleeps and prints
  of \<open>wait_for_stream\<close>. The function never returns \<open>False\<close> on this path, and when it
  returns \<open>True\<close> the last lookup, made after the create, reported \<open>ACTIVE\<close>. It does
  return \<open>True\<close>: if the create succeeds, the backend reports \<open>k\<close> statuses other
  than \<open>ACTIVE\<close> and then \<open>ACTIVE\<close>, and \<open>time.sleep\<close> accepts the three seconds of the
  poll, the function returns after \<open>k + 1\<close> lookups, within \<open>max 1 k\<close> iterations of
  each loop.
\<close>

theorem connect_absent_creates_once_then_polls:
  assumes "describe_stream c (n_describe w) = Inl e"
    and "connect_to_stream c name fuel w = (out, w')"
  shows "(\<exists>rest. trace w' = trace w @ [DescribeStream name, Print (CreatingStream name),
                                       CreateStream name 1] @ rest
                \<and> list_all is_wait_event rest)
       \<and> out \<noteq> Returns False
       \<and> (out = Returns True \<longrightarrow>
            Suc (n_describe w) < n_describe w'
            \<and> describe_stream c (n_describe w' - 1) = Inr ''ACTIVE'')
       \<and> (create_stream c (n_create w) = None
          \<and> (\<forall>j<k. \<exists>s. describe_stream c (Suc (n_describe w) + j) = Inr s \<and> s \<noteq> ''ACTIVE'')
          \<and> describe_stream c (Suc (n_describe w) + k) = Inr ''ACTIVE''
          \<and> k \<le> fuel \<and> 0 < fuel \<and> sleep_accepted c 3
          \<longrightarrow> out = Returns True \<and> n_describe w' = n_describe w + k + 2)"
proof -
  let ?w1 = "emit (DescribeStream name) (w\<lparr>n_describe := Suc (n_describe w)\<rparr>)"
  have n1: "n_describe ?w1 = Suc (n_describe w)" and c1: "n_create ?w1 = n_create w"
    and t1: "trace ?w1 = trace w @ [DescribeStream name]"
    by (simp_all add: emit_def)
  have run: "create_and_wait c name fuel ?w1 = (out, w')"
    using assms by (simp add: connect_to_stream_def describe_status_def)
  have A: "\<exists>rest. trace w' = trace w @ [DescribeStream name, Print (CreatingStream name),
                                       CreateStream name 1] @ rest
                \<and> list_all is_wait_event rest"
    using create_and_wait_trace[OF run] t1 by simp
  have B: "out \<noteq> Returns False" using create_and_wait_returns[of c name fuel ?w1 False w'] run by auto
  have C: "out = Returns True \<longrightarrow>
            Suc (n_describe w) < n_describe w'
            \<and> describe_stream c (n_describe w' - 1) = Inr ''ACTIVE''"
    using create_and_wait_returns[of c name fuel ?w1 True w'] run n1 by auto
  have D: "out = Returns True \<and> n_describe w' = n_describe w + k + 2"
    if h: "create_stream c (n_create w) = None"
      "\<forall>j<k. \<exists>s. describe_stream c (Suc (n_describe w) + j) = Inr s \<and> s \<noteq> ''ACTIVE''"
      "describe_stream c (Suc (n_describe w) + k) = Inr ''ACTIVE''" "k \<le> fuel" "0 < fuel"
      "sleep_accepted c 3"
  proof -
    let ?w2 = "emit (CreateStream name 1)
                 ((emit (Print (CreatingStream name)) ?w1)\<lparr>n_create := Suc (n_create ?w1)\<rparr>)"
    have n2: "n_describe ?w2 = Suc (n_describe w)" by (simp add: emit_def)
    have a1: "\<forall>j<k. \<exists>s. describe_stream c (n_describe ?w2 + j) = Inr s \<and> s \<noteq> ''ACTIVE''"
      using h(2) by (simp only: n2)
    have a2: "describe_stream c (n_describe ?w2 + k) = Inr ''ACTIVE''" using h(3) by (simp only: n2)
    from wait_reaches_active[OF a1 a2 h(4) h(5) h(6)] obtain w3 where
      w3: "wait_for_stream c name fuel ?w2 = (Returns (), w3)" "n_describe w3 = n_describe ?w2 + k + 1"
      by blast
    have "create_and_wait c name fuel ?w1 = (Returns True, w3)"
      using h(1) w3(1) by (simp add: create_and_wait_def call_create_stream_def n_create_emit c1)
    then show ?thesis using run w3(2) n2 by simp
  qed
  show ?thesis using A B C D by blast
qed

theorem connect_absent_witness:
  "fst (connect_to_stream absent_env ''motor'' 5 start) = Returns True
   \<and> n_describe (snd (connect_to_stream absent_env ''motor'' 5 start)) = 4
   \<and> (\<exists>rest. trace (snd (connect_to_stream absent_env ''motor'' 5 start)) =
         [DescribeStream ''motor'', Print (CreatingStream ''motor''), CreateStream ''motor'' 1] @ rest
         \<and> list_all is_wait_event rest)"
proof -
  have 1: "describe_stream absent_env (n_describe start) = Inl ResourceNotFoundException"
    by (simp add: absent_env_def start_def)
  have 2: "connect_to_stream absent_env ''motor'' 5 start =
             (fst (connect_to_stream absent_env ''motor'' 5 start),
              snd (connect_to_stream absent_env ''motor'' 5 start))" by simp
  have 3: "create_stream absent_env (n_create start) = None"
    by (simp add: absent_env_def active_env_def)
  have 4: "\<forall>j<2. \<exists>s. describe_stream absent_env (Suc (n_describe start) + j) = Inr s \<and> s \<noteq> ''ACTIVE''"
    by (simp add: absent_env_def start_def)
  have 5: "describe_stream absent_env (Suc (n_describe start) + 2) = Inr ''ACTIVE''"
    by (simp add: absent_env_def start_def)
  have 6: "sleep_accepted absent_env 3"
    by (simp add: sleep_accepted_def absent_env_def active_env_def)
  show ?thesis
    using connect_absent_creates_once_then_polls [OF 1 2, of 2] 3 4 5 6
    by (simp add: start_def)
qed

text \<open>
  Claim C4. When the first lookup reports \<open>DELETING\<close>, \<open>connect_to_stream\<close> returns
  \<open>False\<close> after that one lookup and a print; \<open>main\<close> of either script then returns at
  once. The whole run consists of two prints and one \<open>describe_stream\<close>: there is no
  \<open>create_stream\<close> and no \<open>put_record\<close>.
\<close>

theorem deleting_is_terminal:
  assumes "describe_stream c (n_describe w) = Inr ''DELETING''"
  shows "connect_to_stream c name fuel w =
           (Returns False, w\<lparr>n_describe := Suc (n_describe w),
                              trace := trace w @ [DescribeStream name,
                                                  Print (StreamBeingDeleted name)]\<rparr>)
       \<and> json_producer_main a c fuel w =
           (Returns (), w\<lparr>n_describe := Suc (n_describe w),
                           trace := trace w @ [Print (Connecting (stream_name a) (region a)),
                                               DescribeStream (stream_name a),
                                               Print (StreamBeingDeleted (stream_name a))]\<rparr>)
       \<and> data_producer_main a c fuel w =
           (Returns (), w\<lparr>n_describe := Suc (n_describe w),
                           trace := trace w @ [Print (Connecting (stream_name a) (region a)),
                                               DescribeStream (stream_name a),
                                               Print (StreamBeingDeleted (stream_name a))]\<rparr>)"
  using assms
  by (simp add: connect_to_stream_def describe_status_def emit_def
                json_producer_main_def data_producer_main_def)

theorem deleting_is_terminal_witness:
  "json_producer_main some_args deleting_env 7 start =
     (Returns (), start\<lparr>n_describe := 1,
                        trace := [Print (Connecting ''motor'' ''us-east-1''),
                                  DescribeStream ''motor'',
                                  Print (StreamBeingDeleted ''motor'')]\<rparr>)"
proof -
  have 1: "describe_stream deleting_env (n_describe start) = Inr ''DELETING''"
    by (simp add: deleting_env_def)
  show ?thesis
    using deleting_is_terminal [OF 1, of "''motor''" 7 some_args]
    by (simp add: start_def some_args_def)
qed

text \<open>
  Claim C5. When the first lookup reports \<open>ACTIVE\<close>, \<open>connect_to_stream\<close> returns \<open>True\<close>
  having made that lookup and nothing else. Called a second time on a stream that
  is still \<open>ACTIVE\<close>, it again makes one lookup and nothing else: the two calls
  together add two \<open>describe_stream\<close> calls to the trace and no \<open>create_stream\<close>.
\<close>

theorem active_is_ready_without_create:
  assumes "describe_stream c (n_describe w) = Inr ''ACTIVE''"
  shows "connect_to_stream c name fuel w =
           (Returns True, w\<lparr>n_describe := Suc (n_describe w),
                             trace := trace w @ [DescribeStream name]\<rparr>)
       \<and> (describe_stream c (Suc (n_describe w)) = Inr ''ACTIVE'' \<longrightarrow>
            connect_to_stream c name fuel (snd (connect_to_stream c name fuel w)) =
              (Returns True, w\<lparr>n_describe := Suc (Suc (n_describe w)),
                                trace := trace w @ [DescribeStream name, DescribeStream name]\<rparr>))"
  using assms
  by (simp add: connect_to_stream_def describe_status_def emit_def)

theorem active_is_ready_witness:
  "connect_to_stream active_env ''motor'' 3 (snd (connect_to_stream active_env ''motor'' 3 start)) =
     (Returns True, start\<lparr>n_describe := 2,
                           trace := [DescribeStream ''motor'', DescribeStream ''motor'']\<rparr>)"
proof -
  have 1: "describe_stream active_env (n_describe start) = Inr ''ACTIVE''"
    by (simp add: active_env_def)
  have 2: "describe_stream active_env (Suc (n_describe start)) = Inr ''ACTIVE''"
    by (simp add: active_env_def)
  have "connect_to_stream active_env ''motor'' 3
          (snd (connect_to_stream active_env ''motor'' 3 start)) =
        (Returns True, start\<lparr>n_describe := Suc (Suc (n_describe start)),
                              trace := trace start @ [DescribeStream ''motor'',
                                                      DescribeStream ''motor'']\<rparr>)"
    using active_is_ready_without_create [OF 1, of "''motor''" 3] 2 by blast
  then show ?thesis by (simp add: start_def numeral_2_eq_2)
qed

text \<open>
  Claim C6 says that a first lookup failing with anything but a clean not-found is
  retried, and that a create is issued only for a stream that is truly absent. The
  code does not do that: here the stream is \<open>ACTIVE\<close> and the first lookup is
  throttled (\<open>LimitExceededException\<close>); \<open>connect_to_stream\<close> prints, calls
  \<open>create_stream\<close> at once, and only then looks up again.
\<close>

theorem transient_lookup_error_counterexample:
  "describe_stream throttled_env 0 = Inl LimitExceededException
   \<and> describe_stream throttled_env 1 = Inr ''ACTIVE''
   \<and> connect_to_stream throttled_env ''motor'' 1 start =
       (Returns True,
        start\<lparr>n_describe := 2, n_create := 1,
               trace := [DescribeStream ''motor'', Print (CreatingStream ''motor''),
                         CreateStream ''motor'' 1, DescribeStream ''motor'']\<rparr>)"
  by (simp add: throttled_env_def active_env_def start_def connect_to_stream_def
                describe_status_def create_and_wait_def call_create_stream_def
                wait_for_stream_def emit_def)

text \<open>
  Claim C6, as the code has it (the bare \<open>except:\<close> and its comment "We assume the
  stream didn't exist"): whatever exception the first lookup raises, the function
  continues exactly as the handler does, and the three calls it makes first are the
  lookup, the print and \<open>create_stream\<close> with \<open>ShardCount=1\<close>. The exception is not
  inspected and the lookup is not repeated before the create. What follows depends
  on the create. If \<open>create_stream\<close> raises, that exception leaves the function and
  nothing else is done: no lookup, no sleep. If it succeeds, only lookups, sleeps
  and prints of \<open>wait_for_stream\<close> follow; the function never returns \<open>False\<close>, and it
  returns \<open>True\<close> only when the create succeeded and the last lookup, made after the
  create, reported \<open>ACTIVE\<close>. It does wait: if the backend then reports \<open>k\<close> statuses
  other than \<open>ACTIVE\<close> and then \<open>ACTIVE\<close>, and \<open>time.sleep\<close> accepts the three seconds,
  the function returns \<open>True\<close> after those \<open>k + 1\<close> further lookups and \<open>k\<close> sleeps of
  three seconds.
\<close>

theorem any_lookup_error_is_taken_for_absence:
  assumes "describe_stream c (n_describe w) = Inl e"
    and "connect_to_stream c name fuel w = (out, w')"
  shows "connect_to_stream c name fuel w =
           create_and_wait c name fuel
             (w\<lparr>n_describe := Suc (n_describe w), trace := trace w @ [DescribeStream name]\<rparr>)
       \<and> take 3 (drop (length (trace w)) (trace (snd (connect_to_stream c name fuel w)))) =
           [DescribeStream name, Print (CreatingStream name), CreateStream name 1]
       \<and> (\<forall>e'. create_stream c (n_create w) = Some e' \<longrightarrow>
            out = Raises e'
            \<and> w' = w\<lparr>n_describe := Suc (n_describe w), n_create := Suc (n_create w),
                      trace := trace w @ [DescribeStream name, Print (CreatingStream name),
                                          CreateStream name 1]\<rparr>)
       \<and> (\<exists>rest. trace w' = trace w @ [DescribeStream name, Print (CreatingStream name),
                                         CreateStream name 1] @ rest
                  \<and> list_all is_wait_event rest)
       \<and> out \<noteq> Returns False
       \<and> (out = Returns True \<longrightarrow>
            create_stream c (n_create w) = None
            \<and> Suc (n_describe w) < n_describe w'
            \<and> describe_stream c (n_describe w' - 1) = Inr ''ACTIVE'')
       \<and> (create_stream c (n_create w) = None
          \<and> (\<forall>j<k. \<exists>s. describe_stream c (Suc (n_describe w) + j) = Inr s \<and> s \<noteq> ''ACTIVE'')
          \<and> describe_stream c (Suc (n_describe w) + k) = Inr ''ACTIVE''
          \<and> k \<le> fuel \<and> 0 < fuel \<and> sleep_accepted c 3
          \<longrightarrow> out = Returns True
              \<and> n_describe w' = n_describe w + k + 2
              \<and> count_list (trace w') (Sleep 3) = count_list (trace w) (Sleep 3) + k)"
proof -
  let ?w0 = "w\<lparr>n_describe := Suc (n_describe w), trace := trace w @ [DescribeStream name]\<rparr>"
  let ?w1 = "emit (DescribeStream name) (w\<lparr>n_describe := Suc (n_describe w)\<rparr>)"
  have w01: "?w1 = ?w0" by (simp add: emit_def)
  have n1: "n_describe ?w1 = Suc (n_describe w)" and c1: "n_create ?w1 = n_create w"
    and t1: "trace ?w1 = trace w @ [DescribeStream name]"
    by (simp_all add: emit_def)
  have eq: "connect_to_stream c name fuel w = create_and_wait c name fuel ?w1"
    using assms(1) by (simp add: connect_to_stream_def describe_status_def)
  have run: "create_and_wait c name fuel ?w1 = (out, w')" using eq assms(2) by simp
  have A: "\<exists>rest. trace w' = trace w @ [DescribeStream name, Print (CreatingStream name),
                                       CreateStream name 1] @ rest
                \<and> list_all is_wait_event rest"
    using create_and_wait_trace[OF run] t1 by simp
  have E: "connect_to_stream c name fuel w = create_and_wait c name fuel ?w0"
    using eq w01 by simp
  have T: "take 3 (drop (length (trace w)) (trace (snd (connect_to_stream c name fuel w)))) =
             [DescribeStream name, Print (CreatingStream name), CreateStream name 1]"
  proof -
    from A obtain rest where
      "trace w' = trace w @ [DescribeStream name, Print (CreatingStream name),
                             CreateStream name 1] @ rest" by blast
    then have "take 3 (drop (length (trace w)) (trace w')) =
                 [DescribeStream name, Print (CreatingStream name), CreateStream name 1]" by simp
    then show ?thesis using assms(2) by simp
  qed
  have R: "out = Raises e'
           \<and> w' = w\<lparr>n_describe := Suc (n_describe w), n_create := Suc (n_create w),
                     trace := trace w @ [DescribeStream name, Print (CreatingStream name),
                                         CreateStream name 1]\<rparr>"
    if "create_stream c (n_create w) = Some e'" for e'
    using run that by (simp add: create_and_wait_def call_create_stream_def emit_def)
  have B: "out \<noteq> Returns False" using create_and_wait_returns[of c name fuel ?w1 False w'] run by auto
  have C0: "create_stream c (n_create w) = None" if "out = Returns True"
  proof (cases "create_stream c (n_create w)")
    case None then show ?thesis .
  next
    case (Some e')
    from R[OF Some] that show ?thesis by simp
  qed
  have C: "out = Returns True \<longrightarrow>
            create_stream c (n_create w) = None
            \<and> Suc (n_describe w) < n_describe w'
            \<and> describe_stream c (n_describe w' - 1) = Inr ''ACTIVE''"
    using create_and_wait_returns[of c name fuel ?w1 True w'] run n1 C0 by auto
  have D: "out = Returns True \<and> n_describe w' = n_describe w + k + 2
           \<and> count_list (trace w') (Sleep 3) = count_list (trace w) (Sleep 3) + k"
    if h: "create_stream c (n_create w) = None"
      "\<forall>j<k. \<exists>s. describe_stream c (Suc (n_describe w) + j) = Inr s \<and> s \<noteq> ''ACTIVE''"
      "describe_stream c (Suc (n_describe w) + k) = Inr ''ACTIVE''" "k \<le> fuel" "0 < fuel"
      "sleep_accepted c 3"
  proof -
    let ?w2 = "emit (CreateStream name 1)
                 ((emit (Print (CreatingStream name)) ?w1)\<lparr>n_create := Suc (n_create ?w1)\<rparr>)"
    have n2: "n_describe ?w2 = Suc (n_describe w)" by (simp add: emit_def)
    have t2: "count_list (trace ?w2) (Sleep 3) = count_list (trace w) (Sleep 3)"
      by (simp add: emit_def)
    have a1: "\<forall>j<k. \<exists>s. describe_stream c (n_describe ?w2 + j) = Inr s \<and> s \<noteq> ''ACTIVE''"
      using h(2) by (simp only: n2)
    have a2: "describe_stream c (n_describe ?w2 + k) = Inr ''ACTIVE''" using h(3) by (simp only: n2)
    from wait_reaches_active[OF a1 a2 h(4) h(5) h(6)] obtain w3 where
      w3: "wait_for_stream c name fuel ?w2 = (Returns (), w3)" "n_describe w3 = n_describe ?w2 + k + 1"
        "count_list (trace w3) (Sleep 3) = count_list (trace ?w2) (Sleep 3) + k"
      by blast
    have "create_and_wait c name fuel ?w1 = (Returns True, w3)"
      using h(1) w3(1) by (simp add: create_and_wait_def call_create_stream_def n_create_emit c1)
    then have "out = Returns True" "w' = w3" using run by simp_all
    then show ?thesis using w3(2) w3(3) n2 t2 by simp
  qed
  from R have R': "\<forall>e'. create_stream c (n_create w) = Some e' \<longrightarrow>
            out = Raises e'
            \<and> w' = w\<lparr>n_describe := Suc (n_describe w), n_create := Suc (n_create w),
                      trace := trace w @ [DescribeStream name, Print (CreatingStream name),
                                          CreateStream name 1]\<rparr>" by blast
  from D have D': "create_stream c (n_create w) = None
          \<and> (\<forall>j<k. \<exists>s. describe_stream c (Suc (n_describe w) + j) = Inr s \<and> s \<noteq> ''ACTIVE'')
          \<and> describe_stream c (Suc (n_describe w) + k) = Inr ''ACTIVE''
          \<and> k \<le> fuel \<and> 0 < fuel \<and> sleep_accepted c 3
          \<longrightarrow> out = Returns True
              \<and> n_describe w' = n_describe w + k + 2
              \<and> count_list (trace w') (Sleep 3) = count_list (trace w) (Sleep 3) + k" by blast
  show ?thesis
    apply (intro conjI)
          apply (rule E)
         apply (rule T)
        apply (rule R')
       apply (rule A)
      apply (rule B)
     apply (rule C)
    apply (rule D')
    done
qed

theorem any_lookup_error_witness:
  "fst (connect_to_stream throttled_creating_env ''motor'' 5 start) = Returns True
   \<and> n_describe (snd (connect_to_stream throttled_creating_env ''motor'' 5 start)) = 4
   \<and> count_list (trace (snd (connect_to_stream throttled_creating_env ''motor'' 5 start)))
                 (Sleep 3) = 2
   \<and> take 3 (trace (snd (connect_to_stream throttled_creating_env ''motor'' 5 start))) =
       [DescribeStream ''motor'', Print (CreatingStream ''motor''), CreateStream ''motor'' 1]
   \<and> connect_to_stream refused_create_env ''motor'' 5 start =
       (Raises ResourceInUseException,
        start\<lparr>n_describe := 1, n_create := 1,
               trace := [DescribeStream ''motor'', Print (CreatingStream ''motor''),
                         CreateStream ''motor'' 1]\<rparr>)"
proof -
  have 1: "describe_stream throttled_creating_env (n_describe start) = Inl LimitExceededException"
    by (simp add: throttled_creating_env_def start_def)
  have 2: "connect_to_stream throttled_creating_env ''motor'' 5 start =
             (fst (connect_to_stream throttled_creating_env ''motor'' 5 start),
              snd (connect_to_stream throttled_creating_env ''motor'' 5 start))" by simp
  have 3: "create_stream throttled_creating_env (n_create start) = None"
    by (simp add: throttled_creating_env_def active_env_def)
  have 4: "\<forall>j<2. \<exists>s. describe_stream throttled_creating_env (Suc (n_describe start) + j) = Inr s
                       \<and> s \<noteq> ''ACTIVE''"
    by (simp add: throttled_creating_env_def start_def)
  have 5: "describe_stream throttled_creating_env (Suc (n_describe start) + 2) = Inr ''ACTIVE''"
    by (simp add: throttled_creating_env_def start_def)
  have 6: "sleep_accepted throttled_creating_env 3"
    by (simp add: sleep_accepted_def throttled_creating_env_def active_env_def)
  have 7: "trace start = []" "n_describe start = 0" by (simp_all add: start_def)
  note inst = any_lookup_error_is_taken_for_absence [OF 1 2, of 2]
  have live: "fst (connect_to_stream throttled_creating_env ''motor'' 5 start) = Returns True
      \<and> n_describe (snd (connect_to_stream throttled_creating_env ''motor'' 5 start)) =
          n_describe start + 2 + 2
      \<and> count_list (trace (snd (connect_to_stream throttled_creating_env ''motor'' 5 start)))
                    (Sleep 3) = count_list (trace start) (Sleep 3) + 2"
    using inst [THEN conjunct2, THEN conjunct2, THEN conjunct2, THEN conjunct2,
                THEN conjunct2, THEN conjunct2] 3 4 5 6
    by simp
  have first: "take 3 (drop (length (trace start))
                  (trace (snd (connect_to_stream throttled_creating_env ''motor'' 5 start)))) =
          [DescribeStream ''motor'', Print (CreatingStream ''motor''), CreateStream ''motor'' 1]"
    using inst [THEN conjunct2, THEN conjunct1] by simp
  have 8: "describe_stream refused_create_env (n_describe start) = Inl LimitExceededException"
    by (simp add: refused_create_env_def throttled_env_def start_def)
  have 9: "connect_to_stream refused_create_env ''motor'' 5 start =
             (fst (connect_to_stream refused_create_env ''motor'' 5 start),
              snd (connect_to_stream refused_create_env ''motor'' 5 start))" by simp
  have 10: "create_stream refused_create_env (n_create start) = Some ResourceInUseException"
    by (simp add: refused_create_env_def)
  have "fst (connect_to_stream refused_create_env ''motor'' 5 start) = Raises ResourceInUseException
      \<and> snd (connect_to_stream refused_create_env ''motor'' 5 start) =
          start\<lparr>n_describe := Suc (n_describe start), n_create := Suc (n_create start),
                 trace := trace start @ [DescribeStream ''motor'', Print (CreatingStream ''motor''),
                                         CreateStream ''motor'' 1]\<rparr>"
    using any_lookup_error_is_taken_for_absence [OF 8 9, of 0, THEN conjunct2, THEN conjunct2,
                                                  THEN conjunct1] 10
    by blast
  then have refused: "connect_to_stream refused_create_env ''motor'' 5 start =
       (Raises ResourceInUseException,
        start\<lparr>n_describe := 1, n_create := 1,
               trace := [DescribeStream ''motor'', Print (CreatingStream ''motor''),
                         CreateStream ''motor'' 1]\<rparr>)"
    by (simp add: start_def prod_eq_iff)
  show ?thesis using live first 7 refused by simp
qed

section \<open>The weighted-random loop: one pass and many\<close>

lemma drawn_type_less: "drawn_type r < 3"
  by (simp add: drawn_type_def)

lemma create_object_eq:
  assumes "length n = 3"
  shows "create_object n r x ts =
           (Inr [(''msg_type'', PInt (int (drawn_type r))),
                 (''value'', PFloat (sample_value r x)),
                 (''sequence'', PInt (n ! drawn_type r + 1)),
                 (''timestamp'', PStr ts)],
            n[drawn_type r := n ! drawn_type r + 1])"
  using assms
  by (simp add: create_object_def or_raise_def getitem_def setitem_def as_index_def
                py_eq_int_def list_getitem_def list_setitem_def py_index_def
                drawn_type_def sample_value_def Let_def)

lemma sent_append: "sent (xs @ ys) = sent xs @ sent ys"
  by (induction xs rule: sent.induct) simp_all

lemma sent_emit_put: "sent (trace (emit (PutRecord name d key) w)) = sent (trace w) @ [d]"
  by (simp add: emit_def sent_append)

lemma sent_emit_print: "sent (trace (emit (Print m) w)) = sent (trace w)"
  by (simp add: emit_def sent_append)

lemma sent_emit_sleep: "sent (trace (emit (Sleep s) w)) = sent (trace w)"
  by (simp add: emit_def sent_append)

lemma json_send_sent:
  "sent (trace (json_send a c obj w)) = sent (trace w) @ [JsonObject obj]"
  by (cases "put_record c (n_put w)")
     (simp_all add: json_send_def call_put_record_def json_dumps_def emit_def sent_append)

lemma json_send_counts:
  "n_put (json_send a c obj w) = Suc (n_put w)"
  "n_randint (json_send a c obj w) = n_randint w"
  "n_random (json_send a c obj w) = n_random w"
  "n_now (json_send a c obj w) = n_now w"
  by (cases "put_record c (n_put w)";
      simp add: json_send_def call_put_record_def emit_def)+

text \<open>One pass through the loop body, for a list of three counters.\<close>

lemma json_iteration_step:
  assumes "length n = 3"
  shows "\<exists>w'. json_iteration a c s (n, w) =
                 ((if sleep_accepted c s then Returns () else Raises (sleep_error c s)),
                  (n[drawn_type (random_randint c (n_randint w)) :=
                       n ! drawn_type (random_randint c (n_randint w)) + 1], w'))
             \<and> sent (trace w') = sent (trace w) @ [JsonObject (next_object c n w)]
             \<and> n_randint w' = Suc (n_randint w) \<and> n_random w' = Suc (n_random w)
             \<and> n_now w' = Suc (n_now w) \<and> n_put w' = Suc (n_put w)"
proof (cases "sleep_accepted c s")
  case True
  then show ?thesis using assms
    by (simp add: json_iteration_def call_randint_def call_random_def call_now_def
                  create_object_eq time_sleep_accepted next_object_def json_send_sent
                  json_send_counts sent_append emit_def)
next
  case False
  then show ?thesis using assms
    by (simp add: json_iteration_def call_randint_def call_random_def call_now_def
                  create_object_eq time_sleep_refused next_object_def json_send_sent
                  json_send_counts sent_append emit_def)
qed

lemma json_loop_unfold:
  assumes "length n = 3"
  shows "\<exists>w1. json_emission_loop a c s (Suc fuel) (n, w) =
                 (if \<not> sleep_accepted c s
                  then (Raises (sleep_error c s),
                        (n[drawn_type (random_randint c (n_randint w)) :=
                             n ! drawn_type (random_randint c (n_randint w)) + 1], w1))
                  else json_emission_loop a c s fuel
                        (n[drawn_type (random_randint c (n_randint w)) :=
                             n ! drawn_type (random_randint c (n_randint w)) + 1], w1))
             \<and> sent (trace w1) = sent (trace w) @ [JsonObject (next_object c n w)]
             \<and> n_randint w1 = Suc (n_randint w) \<and> n_random w1 = Suc (n_random w)
             \<and> n_now w1 = Suc (n_now w) \<and> n_put w1 = Suc (n_put w)"
proof -
  from json_iteration_step[OF assms, of a c s w] obtain w1 where
    w1: "json_iteration a c s (n, w) =
           ((if sleep_accepted c s then Returns () else Raises (sleep_error c s)),
            (n[drawn_type (random_randint c (n_randint w)) :=
                 n ! drawn_type (random_randint c (n_randint w)) + 1], w1))"
      "sent (trace w1) = sent (trace w) @ [JsonObject (next_object c n w)]"
      "n_randint w1 = Suc (n_randint w)" "n_random w1 = Suc (n_random w)"
      "n_now w1 = Suc (n_now w)" "n_put w1 = Suc (n_put w)"
    by blast
  show ?thesis
    by (rule exI[of _ w1]) (simp add: w1)
qed

lemma json_loop_shape:
  assumes "length n = 3" and "json_emission_loop a c s fuel (n, w) = (out, (n', w'))"
  shows "length n' = 3 \<and> (out = Running \<or> out = Raises (sleep_error c s))
         \<and> (sleep_accepted c s \<longrightarrow> out = Running)
         \<and> (\<not> sleep_accepted c s \<and> 0 < fuel \<longrightarrow>
              out = Raises (sleep_error c s) \<and> n_put w' = Suc (n_put w))"
  using assms
proof (induction fuel arbitrary: n w)
  case 0
  then show ?case by simp
next
  case (Suc fuel)
  let ?t = "drawn_type (random_randint c (n_randint w))"
  from json_loop_unfold[OF Suc.prems(1), of a c s fuel w] obtain w1 where
    u: "json_emission_loop a c s (Suc fuel) (n, w) =
          (if \<not> sleep_accepted c s then (Raises (sleep_error c s), (n[?t := n ! ?t + 1], w1))
           else json_emission_loop a c s fuel (n[?t := n ! ?t + 1], w1))"
       "n_put w1 = Suc (n_put w)"
    by blast
  show ?case
  proof (cases "\<not> sleep_accepted c s")
    case True
    then show ?thesis using u Suc.prems by auto
  next
    case False
    then have "json_emission_loop a c s fuel (n[?t := n ! ?t + 1], w1) = (out, (n', w'))"
      using u Suc.prems(2) by simp
    from Suc.IH[OF _ this] Suc.prems(1) False show ?thesis by simp
  qed
qed

lemma json_loop_sent:
  assumes "length n = 3" and "json_emission_loop a c s fuel (n, w) = (out, (n', w'))"
  shows "\<exists>objs. sent (trace w') = sent (trace w) @ map JsonObject objs
              \<and> length objs = passes c s fuel
              \<and> (\<forall>obj\<in>set objs. \<exists>n0 w0. length n0 = 3 \<and> obj = next_object c n0 w0)"
  using assms
proof (induction fuel arbitrary: n w)
  case 0
  then show ?case by (simp add: passes_def)
next
  case (Suc fuel)
  let ?t = "drawn_type (random_randint c (n_randint w))"
  let ?n1 = "n[?t := n ! ?t + 1]"
  from json_loop_unfold[OF Suc.prems(1), of a c s fuel w] obtain w1 where
    u: "json_emission_loop a c s (Suc fuel) (n, w) =
          (if \<not> sleep_accepted c s then (Raises (sleep_error c s), (?n1, w1))
           else json_emission_loop a c s fuel (?n1, w1))"
       "sent (trace w1) = sent (trace w) @ [JsonObject (next_object c n w)]"
    by blast
  have first: "\<exists>n0 w0. length n0 = 3 \<and> next_object c n w = next_object c n0 w0"
    using Suc.prems(1) by blast
  show ?case
  proof (cases "\<not> sleep_accepted c s")
    case True
    then have "w' = w1" using u Suc.prems by simp
    then have "sent (trace w') = sent (trace w) @ map JsonObject [next_object c n w]"
      using u(2) by simp
    then show ?thesis using first True
      by (intro exI[of _ "[next_object c n w]"]) (simp add: passes_def)
  next
    case False
    then have run: "json_emission_loop a c s fuel (?n1, w1) = (out, (n', w'))"
      using u Suc.prems(2) by simp
    have "length ?n1 = 3" using Suc.prems(1) by simp
    from Suc.IH[OF this run] obtain objs where
      objs: "sent (trace w') = sent (trace w1) @ map JsonObject objs"
            "length objs = passes c s fuel"
            "\<forall>obj\<in>set objs. \<exists>n0 w0. length n0 = 3 \<and> obj = next_object c n0 w0" by blast
    have "sent (trace w') = sent (trace w) @ map JsonObject (next_object c n w # objs)"
      using objs(1) u(2) by simp
    then show ?thesis using objs(2,3) first False
      by (intro exI[of _ "next_object c n w # objs"]) (simp add: passes_def)
  qed
qed

lemma json_emission_loop_eq:
  assumes "json_sleep_s a = Inr s"
  shows "\<exists>w1. json_emission a c fuel w = json_emission_loop a c s fuel ([0, 0, 0], w1)
        \<and> sent (trace w1) = sent (trace w) \<and> n_randint w1 = n_randint w \<and> n_put w1 = n_put w"
proof (cases "silent a")
  case True
  show ?thesis
    by (rule exI[of _ "emit (Print (SendingEvery s)) w"])
       (simp add: json_emission_def Let_def True emit_def sent_append assms)
next
  case False
  show ?thesis
    by (rule exI[of _ w]) (simp add: json_emission_def Let_def False assms)
qed

lemma json_emission_overflow:
  assumes "json_sleep_s a = Inl e"
  shows "json_emission a c fuel w = (Raises e, ([0, 0, 0], w))"
  by (simp add: json_emission_def Let_def assms)

lemma int_true_div_error: "int_true_div a b = Inl e \<Longrightarrow> e = OverflowError"
  by (simp add: int_true_div_def Let_def split: if_splits)


lemma json_sleep_s_error: "json_sleep_s a = Inl e \<Longrightarrow> e = OverflowError"
  by (auto simp: json_sleep_s_def int_true_div_error split: option.splits)


lemma next_object_fields:
  "int_field ''msg_type'' (next_object c n w) = Some (int (drawn_type (random_randint c (n_randint w))))"
  "map_of (next_object c n w) ''value'' =
     Some (PFloat (sample_value (random_randint c (n_randint w)) (random_random c (n_random w))))"
  "int_field ''sequence'' (next_object c n w) = Some (n ! drawn_type (random_randint c (n_randint w)) + 1)"
  by (simp_all add: next_object_def int_field_def)


lemma sample_value_range:
  assumes "unit_float x"
  shows "if drawn_type r = 1 then (\<exists>k. 0 \<le> k \<and> k \<le> 255 \<and> sample_value r x = of_int k)
         else - 1000 \<le> sample_value r x \<and> sample_value r x < 1000"
  using float_byte_value[OF assms] float_value_range[OF assms]
  by (simp add: sample_value_def)


section \<open>Claims about the generated samples\<close>

text \<open>
  Claim C10. In \<^verbatim>\<open>json_producer.py\<close> the message type is 0, 1 or 2 whatever
  \<open>random.randint\<close> returns, so \<open>n[obj["msg_type"]]\<close> is inside the list of three counters:
  the loop never raises \<open>IndexError\<close>, \<open>KeyError\<close> or \<open>TypeError\<close>, the list keeps its three
  elements, and every object handed to \<open>put_record\<close> has a \<open>msg_type\<close> in \<open>{0, 1, 2}\<close> and a
  float under \<open>value\<close>. The last part states the same of a single pass through lines
  81 to 90, for any three counters and any draws. The objects handed over are as many
  as the passes made: none when line 76 raises \<open>OverflowError\<close>, otherwise
  \<open>passes c s fuel\<close> for the sleep length \<open>s\<close>, that is every observed iteration when
  \<open>time.sleep\<close> accepts \<open>s\<close> and the first one when it raises.
\<close>

theorem msg_type_indexes_the_three_counters:
  assumes "json_emission a c fuel w = (out, (n', w'))"
  shows "out \<noteq> Raises IndexError \<and> out \<noteq> Raises KeyError \<and> out \<noteq> Raises TypeError
       \<and> length n' = 3
       \<and> (\<exists>objs. sent (trace w') = sent (trace w) @ map JsonObject objs
             \<and> length objs = (case json_sleep_s a of Inl e \<Rightarrow> 0 | Inr s \<Rightarrow> passes c s fuel)
             \<and> (\<forall>obj\<in>set objs.
                   int_field ''msg_type'' obj \<in> {Some 0, Some 1, Some 2}
                   \<and> (\<exists>v. map_of obj ''value'' = Some (PFloat v))))
       \<and> (\<forall>n r x ts. length n = 3 \<longrightarrow>
             (\<exists>obj. create_object n r x ts =
                      (Inr obj, n[drawn_type r := n ! drawn_type r + 1])
                    \<and> drawn_type r < length n
                    \<and> int_field ''msg_type'' obj = Some (int (drawn_type r))
                    \<and> (\<exists>v. map_of obj ''value'' = Some (PFloat v))))"
proof -
  have C: "\<forall>n r x ts. length n = 3 \<longrightarrow>
             (\<exists>obj. create_object n r x ts =
                      (Inr obj, n[drawn_type r := n ! drawn_type r + 1])
                    \<and> drawn_type r < length n
                    \<and> int_field ''msg_type'' obj = Some (int (drawn_type r))
                    \<and> (\<exists>v. map_of obj ''value'' = Some (PFloat v)))"
    by (simp add: create_object_eq int_field_def drawn_type_less)
  show ?thesis
  proof (cases "json_sleep_s a")
    case (Inl e)
    have "out = Raises OverflowError" "n' = [0, 0, 0]" "w' = w"
      using json_emission_overflow[OF Inl, of c fuel w] json_sleep_s_error[OF Inl] assms
      by simp_all
    then show ?thesis using C Inl by simp
  next
    case (Inr s)
    obtain w1 where w1: "json_emission a c fuel w = json_emission_loop a c s fuel ([0, 0, 0], w1)"
        "sent (trace w1) = sent (trace w)"
      using json_emission_loop_eq[OF Inr] by blast
    have run: "json_emission_loop a c s fuel ([0, 0, 0], w1) = (out, (n', w'))"
      using assms w1(1) by simp
    have len: "length [0, 0, 0 :: int] = 3" by simp
    have A: "length n' = 3 \<and> (out = Running \<or> out = Raises (sleep_error c s))"
      using json_loop_shape[OF len run] by blast
    have A': "out \<noteq> Raises IndexError \<and> out \<noteq> Raises KeyError \<and> out \<noteq> Raises TypeError"
      using A sleep_error_kinds[of c s] by auto
    from json_loop_sent[OF len run] obtain objs where
      objs: "sent (trace w') = sent (trace w1) @ map JsonObject objs"
            "length objs = passes c s fuel"
            "\<forall>obj\<in>set objs. \<exists>n0 w0. length n0 = 3 \<and> obj = next_object c n0 w0" by blast
    have B: "\<forall>obj\<in>set objs. int_field ''msg_type'' obj \<in> {Some 0, Some 1, Some 2}
                     \<and> (\<exists>v. map_of obj ''value'' = Some (PFloat v))"
    proof
      fix obj assume "obj \<in> set objs"
      then obtain n0 w0 where "obj = next_object c n0 w0" using objs(3) by blast
      then show "int_field ''msg_type'' obj \<in> {Some 0, Some 1, Some 2}
                     \<and> (\<exists>v. map_of obj ''value'' = Some (PFloat v))"
        by (simp add: next_object_fields drawn_type_def)
    qed
    have S: "\<exists>objs. sent (trace w') = sent (trace w) @ map JsonObject objs
             \<and> length objs = (case json_sleep_s a of Inl e \<Rightarrow> 0 | Inr s \<Rightarrow> passes c s fuel)
             \<and> (\<forall>obj\<in>set objs.
                   int_field ''msg_type'' obj \<in> {Some 0, Some 1, Some 2}
                   \<and> (\<exists>v. map_of obj ''value'' = Some (PFloat v)))"
      using B objs(1,2) w1(2) Inr by (intro exI[of _ objs]) simp
    show ?thesis using A A' S C by blast
  qed
qed

theorem msg_type_indexes_witness:
  "fst (json_emission some_args active_env 2 start) \<noteq> Raises IndexError
   \<and> length (fst (snd (json_emission some_args active_env 2 start))) = 3
   \<and> (\<exists>obj. create_object [0, 0, 0] 501 0 ''now'' = (Inr obj, [0, 0, 1])
            \<and> int_field ''msg_type'' obj = Some 2)"
proof -
  have 1: "json_emission some_args active_env 2 start =
             (fst (json_emission some_args active_env 2 start),
              (fst (snd (json_emission some_args active_env 2 start)),
               snd (snd (json_emission some_args active_env 2 start))))" by simp
  have 2: "length [0, 0, 0 :: int] = 3" by simp
  have 3: "drawn_type 501 = 2" by (simp add: drawn_type_def)
  have "\<exists>obj. create_object [0, 0, 0] 501 0 ''now'' =
                 (Inr obj, [0, 0, 0][drawn_type 501 := [0, 0, 0] ! drawn_type 501 + 1])
              \<and> int_field ''msg_type'' obj = Some (int (drawn_type 501))"
    using msg_type_indexes_the_three_counters [OF 1] 2 by blast
  then have "\<exists>obj. create_object [0, 0, 0] 501 0 ''now'' = (Inr obj, [0, 0, 1])
            \<and> int_field ''msg_type'' obj = Some 2"
    by (simp add: 3)
  then show ?thesis using msg_type_indexes_the_three_counters [OF 1] by blast
qed


text \<open>
  Claim C8. Provided \<open>random.random()\<close> returns what it documents (a binary64 number
  \<open>m / 2\<^sup>5\<^sup>3\<close> in \<open>[0.0, 1.0)\<close>), every object the weighted-random loop hands to
  \<open>put_record\<close> carries under \<open>value\<close> a whole number between 0 and 255 when its
  \<open>msg_type\<close> is 1, and a number in \<open>[-1000, 1000)\<close> otherwise. The bounds hold for the
  rounded binary64 results, not only for exact arithmetic. The objects are as many as
  the passes made: none when line 76 raises \<open>OverflowError\<close>, otherwise
  \<open>passes c s fuel\<close> for the sleep length \<open>s\<close>.
\<close>

theorem published_values_are_in_range:
  assumes "\<forall>k. unit_float (random_random c k)"
    and "json_emission a c fuel w = (out, (n', w'))"
  shows "\<exists>objs. sent (trace w') = sent (trace w) @ map JsonObject objs
             \<and> length objs = (case json_sleep_s a of Inl e \<Rightarrow> 0 | Inr s \<Rightarrow> passes c s fuel)
             \<and> (\<forall>obj\<in>set objs. \<exists>v. map_of obj ''value'' = Some (PFloat v)
                   \<and> (if int_field ''msg_type'' obj = Some 1
                       then (\<exists>k. 0 \<le> k \<and> k \<le> 255 \<and> v = of_int k)
                       else - 1000 \<le> v \<and> v < 1000))"
proof (cases "json_sleep_s a")
  case (Inl e)
  have "w' = w" using json_emission_overflow[OF Inl, of c fuel w] assms(2) by simp
  then show ?thesis using Inl by simp
next
  case (Inr s)
  obtain w1 where w1: "json_emission a c fuel w = json_emission_loop a c s fuel ([0, 0, 0], w1)"
      "sent (trace w1) = sent (trace w)"
    using json_emission_loop_eq[OF Inr] by blast
  have run: "json_emission_loop a c s fuel ([0, 0, 0], w1) = (out, (n', w'))"
    using assms(2) w1(1) by simp
  have len: "length [0, 0, 0 :: int] = 3" by simp
  from json_loop_sent[OF len run] obtain objs where
    objs: "sent (trace w') = sent (trace w1) @ map JsonObject objs"
          "length objs = passes c s fuel"
          "\<forall>obj\<in>set objs. \<exists>n0 w0. length n0 = 3 \<and> obj = next_object c n0 w0" by blast
  have B: "\<forall>obj\<in>set objs. \<exists>v. map_of obj ''value'' = Some (PFloat v)
                   \<and> (if int_field ''msg_type'' obj = Some 1
                       then (\<exists>k. 0 \<le> k \<and> k \<le> 255 \<and> v = of_int k)
                       else - 1000 \<le> v \<and> v < 1000)"
  proof
    fix obj assume "obj \<in> set objs"
    then obtain n0 w0 where o: "obj = next_object c n0 w0" using objs(3) by blast
    let ?r = "random_randint c (n_randint w0)" and ?x = "random_random c (n_random w0)"
    have u: "unit_float ?x" using assms(1) by simp
    have t: "(int_field ''msg_type'' obj = Some 1) = (drawn_type ?r = 1)"
      unfolding o by (simp add: next_object_fields)
    show "\<exists>v. map_of obj ''value'' = Some (PFloat v)
                   \<and> (if int_field ''msg_type'' obj = Some 1
                       then (\<exists>k. 0 \<le> k \<and> k \<le> 255 \<and> v = of_int k)
                       else - 1000 \<le> v \<and> v < 1000)"
      using sample_value_range[OF u, of ?r] unfolding t
      by (intro exI[of _ "sample_value ?r ?x"]) (simp add: o next_object_fields)
  qed
  show ?thesis using B objs(1,2) w1(2) Inr by (intro exI[of _ objs]) simp
qed

theorem published_values_witness:
  "\<exists>objs. sent (trace (snd (snd (json_emission some_args active_env 2 start)))) =
             map JsonObject objs
         \<and> length objs = 2
         \<and> (\<forall>obj\<in>set objs. \<exists>v. map_of obj ''value'' = Some (PFloat v)
               \<and> (if int_field ''msg_type'' obj = Some 1
                   then (\<exists>k. 0 \<le> k \<and> k \<le> 255 \<and> v = of_int k)
                   else - 1000 \<le> v \<and> v < 1000))"
proof -
  have 0: "unit_float 0" by (simp add: unit_float_def)
  have 1: "\<forall>k. unit_float (random_random active_env k)" by (simp add: active_env_def 0)
  have 2: "json_emission some_args active_env 2 start =
             (fst (json_emission some_args active_env 2 start),
              (fst (snd (json_emission some_args active_env 2 start)),
               snd (snd (json_emission some_args active_env 2 start))))" by simp
  have 3: "json_sleep_s some_args = Inr 0" by (simp add: json_sleep_s_def some_args_def)
  have 4: "passes active_env 0 2 = 2"
    by (simp add: passes_def sleep_accepted_def active_env_def)
  show ?thesis
    using published_values_are_in_range [OF 1 2]
    by (simp add: 3 4 start_def)
qed

section \<open>The fixed-batch loop: one pass and many\<close>

lemma map_of_setitem: "map_of (setitem d k v) = (map_of d)(k \<mapsto> v)"
  by (simp add: setitem_def update_conv')

lemma restamp_step:
  assumes "0 \<le> i" "i < int (length objects)"
  shows "restamp c (i # rest) (objects, counter, w) =
           restamp c rest
             (objects[nat i := setitem (setitem (objects ! nat i) ''timestamp''
                                          (PStr (datetime_now c (n_now w))))
                                ''motor_counter'' (PInt counter)],
              counter + 1, w\<lparr>n_now := Suc (n_now w)\<rparr>)"
  using assms
  by (simp add: call_now_def or_stop_def list_getitem_def list_setitem_def py_index_def)

text \<open>The inner loop over any indices inside the list: what it leaves alone.\<close>

lemma restamp_frame:
  assumes "\<forall>i\<in>set idx. 0 \<le> i \<and> i < int (length objects)"
  shows "\<exists>objects' w'. restamp c idx (objects, counter, w) =
            (Returns (), (objects', counter + int (length idx), w'))
          \<and> length objects' = length objects
          \<and> trace w' = trace w \<and> n_put w' = n_put w
          \<and> (\<forall>j<length objects. \<forall>key. key \<noteq> ''timestamp'' \<longrightarrow> key \<noteq> ''motor_counter'' \<longrightarrow>
                 map_of (objects' ! j) key = map_of (objects ! j) key)"
  using assms
proof (induction idx arbitrary: objects counter w)
  case Nil
  then show ?case by simp
next
  case (Cons i rest)
  let ?o = "setitem (setitem (objects ! nat i) ''timestamp'' (PStr (datetime_now c (n_now w))))
              ''motor_counter'' (PInt counter)"
  let ?objects1 = "objects[nat i := ?o]"
  let ?w1 = "w\<lparr>n_now := Suc (n_now w)\<rparr>"
  have i: "0 \<le> i" "i < int (length objects)" using Cons.prems by auto
  have step: "restamp c (i # rest) (objects, counter, w) = restamp c rest (?objects1, counter + 1, ?w1)"
    using restamp_step[OF i] by simp
  have "\<forall>i\<in>set rest. 0 \<le> i \<and> i < int (length ?objects1)" using Cons.prems by simp
  from Cons.IH[OF this, of "counter + 1" ?w1] obtain objects' w' where
    r: "restamp c rest (?objects1, counter + 1, ?w1) =
          (Returns (), (objects', counter + 1 + int (length rest), w'))"
       "length objects' = length ?objects1" "trace w' = trace ?w1" "n_put w' = n_put ?w1"
       "\<forall>j<length ?objects1. \<forall>key. key \<noteq> ''timestamp'' \<longrightarrow> key \<noteq> ''motor_counter'' \<longrightarrow>
                 map_of (objects' ! j) key = map_of (?objects1 ! j) key"
    by blast
  have fr: "\<forall>j<length objects. \<forall>key. key \<noteq> ''timestamp'' \<longrightarrow> key \<noteq> ''motor_counter'' \<longrightarrow>
                 map_of (objects' ! j) key = map_of (objects ! j) key"
  proof (intro allI impI)
    fix j key assume j: "j < length objects" and k: "key \<noteq> ''timestamp''" "key \<noteq> ''motor_counter''"
    have "map_of (objects' ! j) key = map_of (?objects1 ! j) key" using r(5) j k by simp
    also have "\<dots> = map_of (objects ! j) key"
      using j k by (cases "j = nat i") (simp_all add: map_of_setitem)
    finally show "map_of (objects' ! j) key = map_of (objects ! j) key" .
  qed
  show ?case
    using step r(1,2,3,4) fr
    by (intro exI[of _ objects'] exI[of _ w']) (simp add: algebra_simps)
qed

text \<open>The inner loop over \<open>range(m)\<close> from index \<open>i0\<close> on: the counters it writes.\<close>

lemma restamp_counters:
  assumes "m \<le> length objects"
  shows "\<exists>objects' w'. restamp c (map int [i0..<m]) (objects, counter, w) =
            (Returns (), (objects', counter + int (m - i0), w'))
          \<and> (\<forall>j. i0 \<le> j \<and> j < m \<longrightarrow>
                 map_of (objects' ! j) ''motor_counter'' = Some (PInt (counter + int (j - i0))))
          \<and> (\<forall>j<i0. objects' ! j = objects ! j)"
  using assms
proof (induction "m - i0" arbitrary: i0 objects counter w)
  case 0
  then have e: "[i0..<m] = []" and z: "m - i0 = 0" and le: "m \<le> i0" by simp_all
  show ?case
    using z le by (intro exI[of _ objects] exI[of _ w]) (auto simp: e)
next
  case (Suc k)
  then have lt: "i0 < m" by simp
  then have idx: "map int [i0..<m] = int i0 # map int [Suc i0..<m]" by (simp add: upt_conv_Cons)
  let ?o = "setitem (setitem (objects ! i0) ''timestamp'' (PStr (datetime_now c (n_now w))))
              ''motor_counter'' (PInt counter)"
  let ?objects1 = "objects[i0 := ?o]"
  let ?w1 = "w\<lparr>n_now := Suc (n_now w)\<rparr>"
  have i: "0 \<le> int i0" "int i0 < int (length objects)" using lt Suc.prems by auto
  have step: "restamp c (map int [i0..<m]) (objects, counter, w) =
                restamp c (map int [Suc i0..<m]) (?objects1, counter + 1, ?w1)"
    unfolding idx using restamp_step[OF i] by simp
  have k: "k = m - Suc i0" using Suc.hyps(2) by simp
  have len: "m \<le> length ?objects1" using Suc.prems by simp
  from Suc.hyps(1)[OF k len, of "counter + 1" ?w1] obtain objects' w' where
    r: "restamp c (map int [Suc i0..<m]) (?objects1, counter + 1, ?w1) =
          (Returns (), (objects', counter + 1 + int (m - Suc i0), w'))"
       "\<forall>j. Suc i0 \<le> j \<and> j < m \<longrightarrow>
            map_of (objects' ! j) ''motor_counter'' = Some (PInt (counter + 1 + int (j - Suc i0)))"
       "\<forall>j<Suc i0. objects' ! j = ?objects1 ! j"
    by blast
  have c1: "counter + 1 + int (m - Suc i0) = counter + int (m - i0)" using lt by simp
  have a: "\<forall>j. i0 \<le> j \<and> j < m \<longrightarrow>
            map_of (objects' ! j) ''motor_counter'' = Some (PInt (counter + int (j - i0)))"
  proof (intro allI impI)
    fix j assume j: "i0 \<le> j \<and> j < m"
    show "map_of (objects' ! j) ''motor_counter'' = Some (PInt (counter + int (j - i0)))"
    proof (cases "j = i0")
      case True
      have "objects' ! i0 = ?objects1 ! i0" using r(3) by simp
      also have "\<dots> = ?o" using lt Suc.prems by simp
      finally show ?thesis using True by (simp add: map_of_setitem)
    next
      case False
      then have "Suc i0 \<le> j \<and> j < m" using j by simp
      then have "map_of (objects' ! j) ''motor_counter'' = Some (PInt (counter + 1 + int (j - Suc i0)))"
        using r(2) by blast
      moreover have "counter + 1 + int (j - Suc i0) = counter + int (j - i0)" using False j by simp
      ultimately show ?thesis by simp
    qed
  qed
  have b: "\<forall>j<i0. objects' ! j = objects ! j"
  proof (intro allI impI)
    fix j assume "j < i0"
    then show "objects' ! j = objects ! j" using r(3) by simp
  qed
  show ?case
    using step r(1) a b c1
    by (intro exI[of _ objects'] exI[of _ w']) simp
qed


lemma fl_abs_le:
  assumes "\<bar>y\<bar> \<le> of_int k" and "\<bar>k\<bar> < 2 ^ 53"
  shows "\<bar>fl y\<bar> \<le> of_int k"
proof -
  have k: "fl (of_int k) = of_int k" using assms(2) by (rule fl_of_int)
  have "\<bar>- k\<bar> < 2 ^ 53" using assms(2) by simp
  then have "fl (of_int (- k)) = of_int (- k)" by (rule fl_of_int)
  then have mk: "fl (- of_int k) = - of_int k" by simp
  have "y \<le> of_int k" "- of_int k \<le> y" using assms(1) by linarith+
  then have "fl y \<le> fl (of_int k)" "fl (- of_int k) \<le> fl y" by (simp_all add: fl_mono)
  then show ?thesis using k mk by linarith
qed

lemma max_float_large: "2 ^ 53 \<le> max_float"
proof -
  have "(1::rat) \<le> 2 ^ 53 - 1" by simp
  moreover have "(2::rat) ^ 53 \<le> 2 ^ 971" by (rule power_increasing) simp_all
  ultimately have "(1::rat) * 2 ^ 53 \<le> (2 ^ 53 - 1) * 2 ^ 971"
    by (intro mult_mono) simp_all
  then show ?thesis by (simp add: max_float_def)
qed

text \<open>Up to \<open>2\<^sup>5\<^sup>3\<close> milliseconds no conversion and no division overflows.\<close>

lemma int_true_div_small:
  assumes "\<bar>p\<bar> < 2 ^ 53" and "1 \<le> b"
  shows "int_true_div p b = Inr (fl (of_int p / of_int b))"
proof -
  have b: "(1::rat) \<le> of_int b" using assms(2) by simp
  have "\<bar>of_int p / of_int b :: rat\<bar> = \<bar>of_int p\<bar> / of_int b" using b by simp
  also have "\<dots> \<le> \<bar>of_int p\<bar> / 1" using b by (intro divide_left_mono) simp_all
  finally have "\<bar>of_int p / of_int b :: rat\<bar> \<le> of_int \<bar>p\<bar>" by simp
  moreover have "\<bar>\<bar>p\<bar>\<bar> < 2 ^ 53" using assms(1) by simp
  ultimately have "\<bar>fl (of_int p / of_int b)\<bar> \<le> of_int \<bar>p\<bar>" by (rule fl_abs_le)
  also have "(of_int \<bar>p\<bar> :: rat) \<le> 2 ^ 53"
  proof -
    have "\<bar>p\<bar> \<le> 2 ^ 53" using assms(1) by simp
    then have "(of_int \<bar>p\<bar> :: rat) \<le> of_int (2 ^ 53)" by (simp only: of_int_le_iff)
    then show ?thesis by simp
  qed
  also have "\<dots> \<le> max_float" by (rule max_float_large)
  finally have "\<not> max_float < \<bar>fl (of_int p / of_int b)\<bar>" by simp
  then show ?thesis by (simp add: int_true_div_def Let_def)
qed

lemma int_to_float_small:
  assumes "\<bar>p\<bar> < 2 ^ 53"
  shows "int_to_float p = Inr (of_int p)"
proof -
  have e: "fl (of_int p) = of_int p" using assms by (rule fl_of_int)
  have "\<bar>p\<bar> \<le> 2 ^ 53" using assms by simp
  then have "(of_int \<bar>p\<bar> :: rat) \<le> of_int (2 ^ 53)" by (simp only: of_int_le_iff)
  then have "\<bar>of_int p :: rat\<bar> \<le> 2 ^ 53" by simp
  also have "\<dots> \<le> max_float" by (rule max_float_large)
  finally have "\<not> max_float < \<bar>of_int p :: rat\<bar>" by simp
  then show ?thesis by (simp add: int_to_float_def Let_def e)
qed






lemma sleep_accepted_nonneg: "sleep_accepted c s \<Longrightarrow> 0 \<le> s"
  by (simp add: sleep_accepted_def)

lemma passes_accepted: "sleep_accepted c s \<Longrightarrow> passes c s fuel = fuel"
  by (simp add: passes_def)

lemma passes_refused: "\<not> sleep_accepted c s \<Longrightarrow> passes c s fuel = min 1 fuel"
  by (simp add: passes_def)

lemma data_send_sent:
  "sent (trace (data_send a c objects w)) = sent (trace w) @ [JsonArray objects]"
  by (cases "put_record c (n_put w)")
     (simp_all add: data_send_def call_put_record_def json_dumps_list_def emit_def sent_append)

lemma data_send_n_put: "n_put (data_send a c objects w) = Suc (n_put w)"
  by (cases "put_record c (n_put w)")
     (simp_all add: data_send_def call_put_record_def emit_def)

text \<open>One pass through the body of the outer loop, for a list of the configured length.\<close>

lemma data_iteration_step:
  assumes "length objects = nat (objects_per_message a)"
  shows "\<exists>objects' w'. data_iteration a c s (objects, counter, w) =
            ((if sleep_accepted c s then Returns () else Raises (sleep_error c s)),
             (objects', counter + int (length objects), w'))
          \<and> length objects' = length objects
          \<and> sent (trace w') = sent (trace w) @ [JsonArray objects']
          \<and> n_put w' = Suc (n_put w)
          \<and> (\<forall>j<length objects. \<forall>key. key \<noteq> ''timestamp'' \<longrightarrow> key \<noteq> ''motor_counter'' \<longrightarrow>
                 map_of (objects' ! j) key = map_of (objects ! j) key)
          \<and> (\<forall>j<length objects.
                 map_of (objects' ! j) ''motor_counter'' = Some (PInt (counter + int j)))"
proof -
  let ?m = "length objects"
  have rng: "py_range (objects_per_message a) = map int [0..<?m]"
    using assms by (simp add: py_range_def)
  have inr: "\<forall>i\<in>set (map int [0..<?m]). 0 \<le> i \<and> i < int (length objects)" by auto
  from restamp_frame[OF inr, of c counter w] obtain objects' w1 where
    f: "restamp c (map int [0..<?m]) (objects, counter, w) =
          (Returns (), (objects', counter + int (length (map int [0..<?m])), w1))"
       "length objects' = length objects" "trace w1 = trace w" "n_put w1 = n_put w"
       "\<forall>j<length objects. \<forall>key. key \<noteq> ''timestamp'' \<longrightarrow> key \<noteq> ''motor_counter'' \<longrightarrow>
                 map_of (objects' ! j) key = map_of (objects ! j) key"
    by blast
  from restamp_counters[of ?m objects c 0 counter w] obtain objects2 w2 where
    g: "restamp c (map int [0..<?m]) (objects, counter, w) =
          (Returns (), (objects2, counter + int (?m - 0), w2))"
       "\<forall>j. 0 \<le> j \<and> j < ?m \<longrightarrow>
            map_of (objects2 ! j) ''motor_counter'' = Some (PInt (counter + int (j - 0)))"
    by blast
  have same: "objects2 = objects'" using f(1) g(1) by simp
  have mc: "\<forall>j<length objects.
                 map_of (objects' ! j) ''motor_counter'' = Some (PInt (counter + int j))"
    using g(2) same by simp
  let ?w2 = "data_send a c objects' w1"
  let ?w' = "if sleep_accepted c s then emit (Sleep s) ?w2 else ?w2"
  have it: "data_iteration a c s (objects, counter, w) =
              ((if sleep_accepted c s then Returns () else Raises (sleep_error c s)),
               (objects', counter + int ?m, ?w'))"
    using f(1)
    by (cases "sleep_accepted c s")
       (simp_all add: data_iteration_def rng time_sleep_accepted time_sleep_refused)
  have st: "sent (trace ?w') = sent (trace w) @ [JsonArray objects']"
    by (simp add: data_send_sent sent_emit_sleep f(3))
  have np: "n_put ?w' = Suc (n_put w)"
    by (simp add: data_send_n_put n_put_emit f(4))
  show ?thesis
    using it st np f(2) f(5) mc
    by (intro exI[of _ objects'] exI[of _ ?w']) simp
qed

lemma data_loop_run_accepted:
  assumes "length objects = nat (objects_per_message a)" and "sleep_accepted c s"
    and "data_emission_loop a c s fuel (objects, counter, w) = (out, (objects', counter', w'))"
  shows "out = Running
       \<and> counter' = counter + int fuel * int (length objects)
       \<and> length objects' = length objects
       \<and> n_put w' = n_put w + fuel
       \<and> (\<forall>j<length objects. \<forall>key. key \<noteq> ''timestamp'' \<longrightarrow> key \<noteq> ''motor_counter'' \<longrightarrow>
             map_of (objects' ! j) key = map_of (objects ! j) key)
       \<and> (\<exists>recs. sent (trace w') = sent (trace w) @ map JsonArray recs
             \<and> length recs = fuel
             \<and> (\<forall>k<fuel. length (recs ! k) = length objects
                   \<and> (\<forall>j<length objects.
                         map_of (recs ! k ! j) ''motor_counter'' =
                           Some (PInt (counter + int k * int (length objects) + int j))
                         \<and> (\<forall>key. key \<noteq> ''timestamp'' \<longrightarrow> key \<noteq> ''motor_counter'' \<longrightarrow>
                               map_of (recs ! k ! j) key = map_of (objects ! j) key))))"
  using assms
proof (induction fuel arbitrary: objects counter w)
  case 0
  then show ?case by simp
next
  case (Suc fuel)
  let ?m = "length objects"
  from data_iteration_step[OF Suc.prems(1), of c s counter w] Suc.prems(2)
  obtain objects1 w1 where
    it: "data_iteration a c s (objects, counter, w) = (Returns (), (objects1, counter + int ?m, w1))"
    and l1: "length objects1 = ?m"
    and s1: "sent (trace w1) = sent (trace w) @ [JsonArray objects1]"
    and p1: "n_put w1 = Suc (n_put w)"
    and f1: "\<forall>j<?m. \<forall>key. key \<noteq> ''timestamp'' \<longrightarrow> key \<noteq> ''motor_counter'' \<longrightarrow>
                 map_of (objects1 ! j) key = map_of (objects ! j) key"
    and m1: "\<forall>j<?m. map_of (objects1 ! j) ''motor_counter'' = Some (PInt (counter + int j))"
    by auto
  have run: "data_emission_loop a c s fuel (objects1, counter + int ?m, w1) =
               (out, (objects', counter', w'))"
    using Suc.prems(3) it by simp
  have len1: "length objects1 = nat (objects_per_message a)" using l1 Suc.prems(1) by simp
  from Suc.IH[OF len1 Suc.prems(2) run] obtain recs where
    o: "out = Running"
    and c': "counter' = counter + int ?m + int fuel * int (length objects1)"
    and l': "length objects' = length objects1"
    and p': "n_put w' = n_put w1 + fuel"
    and f': "\<forall>j<length objects1. \<forall>key. key \<noteq> ''timestamp'' \<longrightarrow> key \<noteq> ''motor_counter'' \<longrightarrow>
               map_of (objects' ! j) key = map_of (objects1 ! j) key"
    and s': "sent (trace w') = sent (trace w1) @ map JsonArray recs"
    and lr: "length recs = fuel"
    and r': "\<forall>k<fuel. length (recs ! k) = length objects1
                   \<and> (\<forall>j<length objects1.
                         map_of (recs ! k ! j) ''motor_counter'' =
                           Some (PInt (counter + int ?m + int k * int (length objects1) + int j))
                         \<and> (\<forall>key. key \<noteq> ''timestamp'' \<longrightarrow> key \<noteq> ''motor_counter'' \<longrightarrow>
                               map_of (recs ! k ! j) key = map_of (objects1 ! j) key))"
    by blast
  have A: "counter' = counter + int (Suc fuel) * int ?m"
    using c' l1 by (simp add: algebra_simps)
  have B: "\<forall>j<?m. \<forall>key. key \<noteq> ''timestamp'' \<longrightarrow> key \<noteq> ''motor_counter'' \<longrightarrow>
             map_of (objects' ! j) key = map_of (objects ! j) key"
    using f' f1 l1 by simp
  have C: "sent (trace w') = sent (trace w) @ map JsonArray (objects1 # recs)"
    using s' s1 by simp
  have D: "\<forall>k<Suc fuel. length ((objects1 # recs) ! k) = ?m
                   \<and> (\<forall>j<?m.
                         map_of ((objects1 # recs) ! k ! j) ''motor_counter'' =
                           Some (PInt (counter + int k * int ?m + int j))
                         \<and> (\<forall>key. key \<noteq> ''timestamp'' \<longrightarrow> key \<noteq> ''motor_counter'' \<longrightarrow>
                               map_of ((objects1 # recs) ! k ! j) key = map_of (objects ! j) key))"
  proof (intro allI impI)
    fix k assume k: "k < Suc fuel"
    show "length ((objects1 # recs) ! k) = ?m
                   \<and> (\<forall>j<?m.
                         map_of ((objects1 # recs) ! k ! j) ''motor_counter'' =
                           Some (PInt (counter + int k * int ?m + int j))
                         \<and> (\<forall>key. key \<noteq> ''timestamp'' \<longrightarrow> key \<noteq> ''motor_counter'' \<longrightarrow>
                               map_of ((objects1 # recs) ! k ! j) key = map_of (objects ! j) key))"
    proof (cases k)
      case 0
      then show ?thesis using l1 m1 f1 by simp
    next
      case (Suc k')
      then have k': "k' < fuel" using k by simp
      have e: "counter + int ?m + int k' * int ?m = counter + int k * int ?m"
        using Suc by (simp add: algebra_simps)
      show ?thesis
        using r'[rule_format, OF k'] f1 l1 e Suc by simp
    qed
  qed
  show ?case
    using o A l' l1 p' p1 B C D lr
    by (intro conjI exI[of _ "objects1 # recs"]) simp_all
qed

text \<open>
  The outer loop for any sleep length: it makes \<open>passes c s fuel\<close> passes, all of the
  observed ones when \<open>time.sleep\<close> accepts the length and one when it raises.
\<close>

lemma data_loop_run:
  assumes "length objects = nat (objects_per_message a)"
    and "data_emission_loop a c s fuel (objects, counter, w) = (out, (objects', counter', w'))"
  shows "out = (if sleep_accepted c s \<or> fuel = 0 then Running else Raises (sleep_error c s))
       \<and> counter' = counter + int (passes c s fuel) * int (length objects)
       \<and> length objects' = length objects
       \<and> n_put w' = n_put w + passes c s fuel
       \<and> (\<forall>j<length objects. \<forall>key. key \<noteq> ''timestamp'' \<longrightarrow> key \<noteq> ''motor_counter'' \<longrightarrow>
             map_of (objects' ! j) key = map_of (objects ! j) key)
       \<and> (\<exists>recs. sent (trace w') = sent (trace w) @ map JsonArray recs
             \<and> length recs = passes c s fuel
             \<and> (\<forall>k<passes c s fuel. length (recs ! k) = length objects
                   \<and> (\<forall>j<length objects.
                         map_of (recs ! k ! j) ''motor_counter'' =
                           Some (PInt (counter + int k * int (length objects) + int j))
                         \<and> (\<forall>key. key \<noteq> ''timestamp'' \<longrightarrow> key \<noteq> ''motor_counter'' \<longrightarrow>
                               map_of (recs ! k ! j) key = map_of (objects ! j) key))))"
proof (cases "sleep_accepted c s")
  case True
  then have p: "passes c s fuel = fuel" by (rule passes_accepted)
  show ?thesis
    unfolding p using data_loop_run_accepted[OF assms(1) True assms(2)] True by simp
next
  case False
  then have p: "passes c s fuel = min 1 fuel" by (rule passes_refused)
  show ?thesis
  proof (cases fuel)
    case 0
    then have "out = Running" "objects' = objects" "counter' = counter" "w' = w"
      using assms(2) by simp_all
    then show ?thesis using 0 p by simp
  next
    case (Suc f)
    let ?m = "length objects"
    from data_iteration_step[OF assms(1), of c s counter w] False
    obtain objects1 w1 where
      it: "data_iteration a c s (objects, counter, w) =
             (Raises (sleep_error c s), (objects1, counter + int ?m, w1))"
      and l1: "length objects1 = ?m"
      and s1: "sent (trace w1) = sent (trace w) @ [JsonArray objects1]"
      and p1: "n_put w1 = Suc (n_put w)"
      and f1: "\<forall>j<?m. \<forall>key. key \<noteq> ''timestamp'' \<longrightarrow> key \<noteq> ''motor_counter'' \<longrightarrow>
                   map_of (objects1 ! j) key = map_of (objects ! j) key"
      and m1: "\<forall>j<?m. map_of (objects1 ! j) ''motor_counter'' = Some (PInt (counter + int j))"
      by auto
    have r: "out = Raises (sleep_error c s)" "objects' = objects1"
        "counter' = counter + int ?m" "w' = w1"
      using assms(2) it Suc by simp_all
    have p': "passes c s fuel = 1" using p Suc by simp
    have R: "\<exists>recs. sent (trace w') = sent (trace w) @ map JsonArray recs
             \<and> length recs = 1
             \<and> (\<forall>k<1. length (recs ! k) = length objects
                   \<and> (\<forall>j<length objects.
                         map_of (recs ! k ! j) ''motor_counter'' =
                           Some (PInt (counter + int k * int (length objects) + int j))
                         \<and> (\<forall>key. key \<noteq> ''timestamp'' \<longrightarrow> key \<noteq> ''motor_counter'' \<longrightarrow>
                               map_of (recs ! k ! j) key = map_of (objects ! j) key)))"
      using s1 l1 m1 f1 r(4) by (intro exI[of _ "[objects1]"]) simp
    show ?thesis
      unfolding p' using r l1 p1 f1 R False Suc by simp
  qed
qed

lemma build_objects_run:
  assumes "length objs = i0"
  shows "\<exists>objects w'. build_objects c (map int [i0..<m]) objs w = (objects, w')
          \<and> length objects = max i0 m
          \<and> sent (trace w') = sent (trace w) \<and> n_put w' = n_put w
          \<and> (\<forall>j<i0. objects ! j = objs ! j)
          \<and> (\<forall>j. i0 \<le> j \<and> j < m \<longrightarrow>
                 map_of (objects ! j) ''msg_type'' = Some (PInt 3)
                 \<and> map_of (objects ! j) ''encoder_counter'' = Some (PInt (int j * 100))
                 \<and> map_of (objects ! j) ''motor_counter'' = Some (PInt (int j)))"
  using assms
proof (induction "m - i0" arbitrary: i0 objs w)
  case 0
  then have e: "[i0..<m] = []" and le: "m \<le> i0" by simp_all
  show ?case using le by (intro exI[of _ objs] exI[of _ w]) (auto simp: e 0 max_def)
next
  case (Suc k)
  then have lt: "i0 < m" by simp
  then have idx: "map int [i0..<m] = int i0 # map int [Suc i0..<m]" by (simp add: upt_conv_Cons)
  let ?w3 = "w\<lparr>n_np_randint := Suc (Suc (n_np_randint w)), n_now := Suc (n_now w)\<rparr>"
  let ?obj = "setitem (setitem (setitem (setitem (setitem (setitem [] ''msg_type'' (PInt 3))
                ''encoder'' (PInt (np_random_randint c (n_np_randint w))))
                ''motor'' (PInt (np_random_randint c (Suc (n_np_randint w)))))
                ''timestamp'' (PStr (datetime_now c (n_now w))))
                ''encoder_counter'' (PInt (int i0 * 100)))
                ''motor_counter'' (PInt (int i0))"
  have step: "build_objects c (map int [i0..<m]) objs w =
                build_objects c (map int [Suc i0..<m]) (objs @ [?obj]) ?w3"
    unfolding idx by (simp add: call_np_randint_def call_now_def Let_def)
  have k: "k = m - Suc i0" using Suc.hyps(2) by simp
  have len: "length (objs @ [?obj]) = Suc i0" using Suc.prems by simp
  from Suc.hyps(1)[OF k len, of ?w3] obtain objects w' where
    r: "build_objects c (map int [Suc i0..<m]) (objs @ [?obj]) ?w3 = (objects, w')"
       "length objects = max (Suc i0) m"
       "sent (trace w') = sent (trace ?w3)" "n_put w' = n_put ?w3"
       "\<forall>j<Suc i0. objects ! j = (objs @ [?obj]) ! j"
       "\<forall>j. Suc i0 \<le> j \<and> j < m \<longrightarrow>
                 map_of (objects ! j) ''msg_type'' = Some (PInt 3)
                 \<and> map_of (objects ! j) ''encoder_counter'' = Some (PInt (int j * 100))
                 \<and> map_of (objects ! j) ''motor_counter'' = Some (PInt (int j))"
    by blast
  have a: "\<forall>j<i0. objects ! j = objs ! j"
  proof (intro allI impI)
    fix j assume j: "j < i0"
    then have "objects ! j = (objs @ [?obj]) ! j" using r(5) by simp
    then show "objects ! j = objs ! j" using j Suc.prems by (simp add: nth_append)
  qed
  have at: "objects ! i0 = ?obj"
  proof -
    have "objects ! i0 = (objs @ [?obj]) ! i0" using r(5) by simp
    then show ?thesis using Suc.prems by (simp add: nth_append)
  qed
  have b: "\<forall>j. i0 \<le> j \<and> j < m \<longrightarrow>
                 map_of (objects ! j) ''msg_type'' = Some (PInt 3)
                 \<and> map_of (objects ! j) ''encoder_counter'' = Some (PInt (int j * 100))
                 \<and> map_of (objects ! j) ''motor_counter'' = Some (PInt (int j))"
  proof (intro allI impI)
    fix j assume j: "i0 \<le> j \<and> j < m"
    show "map_of (objects ! j) ''msg_type'' = Some (PInt 3)
                 \<and> map_of (objects ! j) ''encoder_counter'' = Some (PInt (int j * 100))
                 \<and> map_of (objects ! j) ''motor_counter'' = Some (PInt (int j))"
    proof (cases "j = i0")
      case True
      then show ?thesis using at by (simp add: map_of_setitem)
    next
      case False
      then have "Suc i0 \<le> j \<and> j < m" using j by simp
      then show ?thesis using r(6) by blast
    qed
  qed
  have mx: "max (Suc i0) m = max i0 m" using lt by simp
  show ?case
    using step r(1,2,3,4) a b mx
    by (intro exI[of _ objects] exI[of _ w']) simp
qed

lemma build_objects_from_empty:
  "\<exists>objects0 w0. build_objects c (map int [0..<m]) [] w = (objects0, w0)
      \<and> length objects0 = m
      \<and> sent (trace w0) = sent (trace w) \<and> n_put w0 = n_put w
      \<and> (\<forall>j<m. map_of (objects0 ! j) ''msg_type'' = Some (PInt 3)
                 \<and> map_of (objects0 ! j) ''encoder_counter'' = Some (PInt (int j * 100)))"
proof -
  have len: "length ([] :: dict list) = 0" by simp
  from build_objects_run[OF len, of c m w] obtain objects0 w0 where
    r: "build_objects c (map int [0..<m]) [] w = (objects0, w0)
          \<and> length objects0 = max 0 m
          \<and> sent (trace w0) = sent (trace w) \<and> n_put w0 = n_put w
          \<and> (\<forall>j<0. objects0 ! j = [] ! j)
          \<and> (\<forall>j. 0 \<le> j \<and> j < m \<longrightarrow>
                 map_of (objects0 ! j) ''msg_type'' = Some (PInt 3)
                 \<and> map_of (objects0 ! j) ''encoder_counter'' = Some (PInt (int j * 100))
                 \<and> map_of (objects0 ! j) ''motor_counter'' = Some (PInt (int j)))"
    by (elim exE)
  have 1: "build_objects c (map int [0..<m]) [] w = (objects0, w0)" using r by (rule conjunct1)
  have 2: "length objects0 = m" using r by simp
  have 3: "sent (trace w0) = sent (trace w)" "n_put w0 = n_put w" using r by simp_all
  have 4: "\<forall>j<m. map_of (objects0 ! j) ''msg_type'' = Some (PInt 3)
                 \<and> map_of (objects0 ! j) ''encoder_counter'' = Some (PInt (int j * 100))"
    using r by simp
  show ?thesis
    by (rule exI[of _ objects0], rule exI[of _ w0]) (simp add: 1 2 3 4)
qed

lemma data_emission_run:
  "\<exists>objects0 w0. build_objects c (py_range (objects_per_message a)) [] w = (objects0, w0)
      \<and> data_emission a c fuel w =
          (case data_sleep_s a of
             Inl e \<Rightarrow> (Raises e, (objects0, 0, w0))
           | Inr s \<Rightarrow> data_emission_loop a c s fuel (objects0, 0, w0))
      \<and> length objects0 = nat (objects_per_message a)
      \<and> sent (trace w0) = sent (trace w) \<and> n_put w0 = n_put w
      \<and> (\<forall>j<length objects0.
            map_of (objects0 ! j) ''msg_type'' = Some (PInt 3)
            \<and> map_of (objects0 ! j) ''encoder_counter'' = Some (PInt (int j * 100)))"
proof -
  let ?m = "nat (objects_per_message a)"
  from build_objects_from_empty[of c ?m w] obtain objects0 w0 where
    b0: "build_objects c (map int [0..<?m]) [] w = (objects0, w0)"
    and l: "length objects0 = ?m"
    and s: "sent (trace w0) = sent (trace w)" "n_put w0 = n_put w"
    and f: "\<forall>j<?m. map_of (objects0 ! j) ''msg_type'' = Some (PInt 3)
                 \<and> map_of (objects0 ! j) ''encoder_counter'' = Some (PInt (int j * 100))"
    by (elim exE conjE)
  have b: "build_objects c (py_range (objects_per_message a)) [] w = (objects0, w0)"
    using b0 by (simp only: py_range_def)
  have e: "data_emission a c fuel w =
          (case data_sleep_s a of
             Inl e \<Rightarrow> (Raises e, (objects0, 0, w0))
           | Inr s \<Rightarrow> data_emission_loop a c s fuel (objects0, 0, w0))"
    using b by (simp add: data_emission_def)
  have f': "\<forall>j<length objects0. map_of (objects0 ! j) ''msg_type'' = Some (PInt 3)
                 \<and> map_of (objects0 ! j) ''encoder_counter'' = Some (PInt (int j * 100))"
    using f by (simp only: l)
  show ?thesis
    by (rule exI[of _ objects0], rule exI[of _ w0]) (simp add: b e l s f')
qed

lemma data_loop_keeps_running:
  assumes "data_sleep_s a = Inr s" and "sleep_accepted c s"
  shows "fst (data_emission a c fuel w) = Running
   \<and> n_put (snd (snd (snd (data_emission a c fuel w)))) = n_put w + fuel"
proof -
  from data_emission_run[of c a w fuel] obtain objects0 w0 where
    e: "data_emission a c fuel w =
          (case data_sleep_s a of
             Inl e \<Rightarrow> (Raises e, (objects0, 0, w0))
           | Inr s \<Rightarrow> data_emission_loop a c s fuel (objects0, 0, w0))"
    and l: "length objects0 = nat (objects_per_message a)"
    and p: "n_put w0 = n_put w"
    by (elim exE conjE)
  let ?D = "data_emission_loop a c s fuel (objects0, 0, w0)"
  have e': "data_emission a c fuel w = ?D" using e assms(1) by simp
  have d: "?D = (fst ?D, (fst (snd ?D), fst (snd (snd ?D)), snd (snd (snd ?D))))" by simp
  have "fst ?D = Running \<and> n_put (snd (snd (snd ?D))) = n_put w0 + fuel"
    using data_loop_run_accepted[OF l assms(2) d] by (elim conjE) simp
  then show ?thesis using e' p by simp
qed

section \<open>Counters of the weighted-random loop\<close>





lemma json_loop_sequences:
  assumes "length n = 3" and "json_emission_loop a c s fuel (n, w) = (out, (n', w'))"
  shows "(\<forall>t<3. n ! t \<le> n' ! t)
       \<and> (\<exists>objs. sent (trace w') = sent (trace w) @ map JsonObject objs
             \<and> sorted_wrt same_type_in_sequence objs
             \<and> (\<forall>obj\<in>set objs. \<exists>t<3. int_field ''msg_type'' obj = Some (int t)
                   \<and> (\<exists>q. int_field ''sequence'' obj = Some q \<and> n ! t < q \<and> q \<le> n' ! t)))"
  using assms
proof (induction fuel arbitrary: n w)
  case 0
  then show ?case by simp
next
  case (Suc fuel)
  let ?t = "drawn_type (random_randint c (n_randint w))"
  let ?n1 = "n[?t := n ! ?t + 1]"
  let ?obj = "next_object c n w"
  from json_loop_unfold[OF Suc.prems(1), of a c s fuel w] obtain w1 where
    u: "json_emission_loop a c s (Suc fuel) (n, w) =
          (if \<not> sleep_accepted c s then (Raises (sleep_error c s), (?n1, w1))
           else json_emission_loop a c s fuel (?n1, w1))"
       "sent (trace w1) = sent (trace w) @ [JsonObject ?obj]"
    by blast
  have t3: "?t < 3" by (rule drawn_type_less)
  have tl: "?t < length n" using t3 Suc.prems(1) by simp
  have ty: "int_field ''msg_type'' ?obj = Some (int ?t)"
    and sq: "int_field ''sequence'' ?obj = Some (n ! ?t + 1)"
    by (simp_all add: next_object_fields)
  have n1: "\<And>t. t < 3 \<Longrightarrow> ?n1 ! t = n ! t + (if ?t = t then 1 else 0)"
    using tl Suc.prems(1) by simp
  show ?case
  proof (cases "\<not> sleep_accepted c s")
    case True
    then have e: "n' = ?n1" "w' = w1" using u Suc.prems(2) by simp_all
    have "\<forall>t<3. n ! t \<le> n' ! t" unfolding e using n1 by simp
    moreover have "sent (trace w') = sent (trace w) @ map JsonObject [?obj]" using u(2) e by simp
    moreover have "\<exists>t<3. int_field ''msg_type'' ?obj = Some (int t)
                   \<and> (\<exists>q. int_field ''sequence'' ?obj = Some q \<and> n ! t < q \<and> q \<le> n' ! t)"
      using ty sq t3 n1[OF t3] e by (intro exI[of _ ?t]) simp
    ultimately show ?thesis by (intro conjI exI[of _ "[?obj]"]) simp_all
  next
    case False
    then have run: "json_emission_loop a c s fuel (?n1, w1) = (out, (n', w'))"
      using u Suc.prems(2) by simp
    have len: "length ?n1 = 3" using Suc.prems(1) by simp
    from Suc.IH[OF len run] obtain objs where
      mono: "\<forall>t<3. ?n1 ! t \<le> n' ! t"
      and st: "sent (trace w') = sent (trace w1) @ map JsonObject objs"
      and so: "sorted_wrt same_type_in_sequence objs"
      and bd: "\<forall>obj\<in>set objs. \<exists>t<3. int_field ''msg_type'' obj = Some (int t)
                   \<and> (\<exists>q. int_field ''sequence'' obj = Some q \<and> ?n1 ! t < q \<and> q \<le> n' ! t)"
      by blast
    have A: "\<forall>t<3. n ! t \<le> n' ! t"
    proof (intro allI impI)
      fix t :: nat assume t: "t < 3"
      have "n ! t \<le> ?n1 ! t" using n1[OF t] by simp
      then show "n ! t \<le> n' ! t" using mono t by fastforce
    qed
    have B: "sent (trace w') = sent (trace w) @ map JsonObject (?obj # objs)" using st u(2) by simp
    have first: "\<exists>t<3. int_field ''msg_type'' ?obj = Some (int t)
                   \<and> (\<exists>q. int_field ''sequence'' ?obj = Some q \<and> n ! t < q \<and> q \<le> n' ! t)"
    proof -
      have "n ! ?t + 1 \<le> n' ! ?t" using mono t3 n1[OF t3] by fastforce
      then show ?thesis using ty sq t3 by (intro exI[of _ ?t]) simp
    qed
    have rest: "\<forall>obj\<in>set objs. same_type_in_sequence ?obj obj
                   \<and> (\<exists>t<3. int_field ''msg_type'' obj = Some (int t)
                   \<and> (\<exists>q. int_field ''sequence'' obj = Some q \<and> n ! t < q \<and> q \<le> n' ! t))"
    proof
      fix obj assume "obj \<in> set objs"
      then obtain t q where o: "t < 3" "int_field ''msg_type'' obj = Some (int t)"
        "int_field ''sequence'' obj = Some q" "?n1 ! t < q" "q \<le> n' ! t"
        using bd by blast
      have lt: "n ! t < q" using o(4) n1[OF o(1)] by (simp split: if_splits)
      have same: "same_type_in_sequence ?obj obj"
      proof (cases "?t = t")
        case True
        then have "n ! ?t + 1 < q" using o(4) n1[OF o(1)] by simp
        then show ?thesis by (simp add: same_type_in_sequence_def sq o(3))
      next
        case False
        then show ?thesis by (simp add: same_type_in_sequence_def ty o(2))
      qed
      show "same_type_in_sequence ?obj obj
                   \<and> (\<exists>t<3. int_field ''msg_type'' obj = Some (int t)
                   \<and> (\<exists>q. int_field ''sequence'' obj = Some q \<and> n ! t < q \<and> q \<le> n' ! t))"
        using same o lt by blast
    qed
    show ?thesis
      using A B so first rest
      by (intro conjI exI[of _ "?obj # objs"]) simp_all
  qed
qed

section \<open>Claims about the emission loops\<close>

lemma sample_value_type0: "sample_value 1 0 = - 1000"
proof -
  have "fl (of_int (- 1000)) = of_int (- 1000)" by (rule fl_of_int) simp
  then show ?thesis
    by (simp add: sample_value_def drawn_type_def float_sub_def float_mul_def fl_zero)
qed

lemma sample_value_type1: "sample_value 401 0 = 0"
  by (simp add: sample_value_def drawn_type_def float_of_int_def float_mul_def fl_zero py_int_def)

lemma json_sleep_s_negative_args:
  "json_sleep_s negative_period_args = Inr (fl (- (1 / 1000)))"
proof -
  have "int_true_div (- 1) 1000 = Inr (fl (of_int (- 1) / of_int 1000))"
    by (rule int_true_div_small) simp_all
  then show ?thesis by (simp add: json_sleep_s_def negative_period_args_def)
qed

lemma negative_sleep_length: "fl (- (1 / 1000)) < 0" "\<bar>fl (- (1 / 1000))\<bar> \<le> 1"
proof -
  show "fl (- (1 / 1000)) < 0" by (rule fl_neg) simp
  have "\<bar>fl (- (1 / 1000))\<bar> \<le> of_int 1" by (rule fl_abs_le) simp_all
  then show "\<bar>fl (- (1 / 1000))\<bar> \<le> 1" by simp
qed

lemma negative_sleep_refused:
  "time_sleep failing_put_env (fl (- (1 / 1000))) w = (Raises ValueError, w)"
proof -
  have "\<not> 9000000000 < \<bar>fl (- (1 / 1000))\<bar>" using negative_sleep_length(2) by linarith
  then have "sleep_refused failing_put_env (fl (- (1 / 1000))) = None"
    by (simp add: failing_put_env_def active_env_def)
  then show ?thesis using negative_sleep_length(1) by (simp add: time_sleep_def)
qed

lemma negative_args_fields: "\<not> silent negative_period_args" "stream_name negative_period_args = ''motor''"
    by (simp_all add: negative_period_args_def some_args_def)

lemma failing_put_env_fields: "random_randint failing_put_env = (\<lambda>k. 1)" "random_random failing_put_env = (\<lambda>k. 0)"
    "datetime_now failing_put_env = (\<lambda>k. ''now'')"
    "put_record failing_put_env = (\<lambda>k. Some ProvisionedThroughputExceededException)"
    by (simp_all add: failing_put_env_def active_env_def)

lemma drawn_type_1: "drawn_type 1 = 0" by (simp add: drawn_type_def)

lemma create_object_first: "create_object [0, 0, 0] 1 0 ''now'' =
   (Inr [(''msg_type'', PInt 0), (''value'', PFloat (- 1000)),
                                (''sequence'', PInt 1), (''timestamp'', PStr ''now'')], [1, 0, 0])"
  by (simp add: create_object_eq sample_value_type0 drawn_type_1)

lemma json_send_rejected: "json_send negative_period_args failing_put_env obj w =
  emit (Print (ExceptionWas ProvisionedThroughputExceededException))
    (emit (Print (PutRecordFailed (JsonObject obj) ''motor''))
      (emit (PutRecord ''motor'' (JsonObject obj) ''123'') (w\<lparr>n_put := Suc (n_put w)\<rparr>)))"
  by (simp add: json_send_def call_put_record_def json_dumps_def negative_args_fields
                failing_put_env_fields)

lemma json_iteration_negative: "json_iteration negative_period_args failing_put_env (fl (- (1 / 1000))) ([0, 0, 0], w) =
     (Raises ValueError,
      ([1, 0, 0],
       json_send negative_period_args failing_put_env [(''msg_type'', PInt 0), (''value'', PFloat (- 1000)),
                                (''sequence'', PInt 1), (''timestamp'', PStr ''now'')]
          (w\<lparr>n_randint := Suc (n_randint w), n_random := Suc (n_random w), n_now := Suc (n_now w)\<rparr>)))"
  by (simp add: json_iteration_def call_randint_def call_random_def call_now_def
                failing_put_env_fields create_object_first negative_sleep_refused)

lemma json_loop_stops:
  "json_iteration a c s st = (Raises e, st') \<Longrightarrow> 0 < fuel \<Longrightarrow>
     json_emission_loop a c s fuel st = (Raises e, st')"
  by (cases fuel) simp_all

text \<open>
  Claim C1 says that after a publish call that fails the loop goes on with the next
  iteration. In \<^verbatim>\<open>json_producer.py\<close> run with \<^verbatim>\<open>--period -1\<close> against a backend that rejects
  \<open>put_record\<close>, the \<open>except Exception\<close> handler does catch and print the failure, but
  line 107 then calls \<open>time.sleep\<close> with a negative length: the \<open>ValueError\<close> leaves the
  loop in its first iteration, after a single \<open>put_record\<close>, although five iterations
  were asked for. \<^verbatim>\<open>data_producer.py\<close> guards against this (line 90 takes a negative
  period for no delay); line 76 of \<^verbatim>\<open>json_producer.py\<close> does not. With the same
  arguments and the same backend the loop of \<^verbatim>\<open>data_producer.py\<close> is still running
  after five iterations and five \<open>put_record\<close> calls.
\<close>

theorem negative_period_ends_the_loop:
  "json_emission negative_period_args failing_put_env 5 start =
     (Raises ValueError,
      ([1, 0, 0],
       start\<lparr>n_put := 1, n_randint := 1, n_random := 1, n_now := 1,
              trace :=
                [PutRecord ''motor''
                   (JsonObject [(''msg_type'', PInt 0), (''value'', PFloat (- 1000)),
                                (''sequence'', PInt 1), (''timestamp'', PStr ''now'')])
                   ''123'',
                 Print (PutRecordFailed
                   (JsonObject [(''msg_type'', PInt 0), (''value'', PFloat (- 1000)),
                                (''sequence'', PInt 1), (''timestamp'', PStr ''now'')])
                   ''motor''),
                 Print (ExceptionWas ProvisionedThroughputExceededException)]\<rparr>))
   \<and> fst (data_emission negative_period_args failing_put_env 5 start) = Running
   \<and> n_put (snd (snd (snd (data_emission negative_period_args failing_put_env 5 start)))) = 5"
proof -
  let ?a = "negative_period_args" and ?c = "failing_put_env"
  let ?obj = "[(''msg_type'', PInt 0), (''value'', PFloat (- 1000)),
               (''sequence'', PInt 1), (''timestamp'', PStr ''now'')]"
  let ?w = "json_send ?a ?c ?obj
              (start\<lparr>n_randint := Suc (n_randint start), n_random := Suc (n_random start),
                     n_now := Suc (n_now start)\<rparr>)"
  have "json_emission ?a ?c 5 start =
          json_emission_loop ?a ?c (fl (- (1 / 1000))) 5 ([0, 0, 0], start)"
    by (simp add: json_emission_def Let_def negative_args_fields json_sleep_s_negative_args)
  also have "\<dots> = (Raises ValueError, ([1, 0, 0], ?w))"
    by (rule json_loop_stops) (simp_all add: json_iteration_negative)
  also have "?w = start\<lparr>n_put := 1, n_randint := 1, n_random := 1, n_now := 1,
              trace :=
                [PutRecord ''motor'' (JsonObject ?obj) ''123'',
                 Print (PutRecordFailed (JsonObject ?obj) ''motor''),
                 Print (ExceptionWas ProvisionedThroughputExceededException)]\<rparr>"
    by (simp add: json_send_rejected emit_def start_def)
  finally have J: "json_emission ?a ?c 5 start =
     (Raises ValueError,
      ([1, 0, 0],
       start\<lparr>n_put := 1, n_randint := 1, n_random := 1, n_now := 1,
              trace :=
                [PutRecord ''motor'' (JsonObject ?obj) ''123'',
                 Print (PutRecordFailed (JsonObject ?obj) ''motor''),
                 Print (ExceptionWas ProvisionedThroughputExceededException)]\<rparr>))" .
  have ds: "data_sleep_s ?a = Inr 0" by (simp add: data_sleep_s_def negative_period_args_def)
  have acc: "sleep_accepted ?c 0"
    by (simp add: sleep_accepted_def failing_put_env_def active_env_def)
  have D: "fst (data_emission ?a ?c 5 start) = Running
     \<and> n_put (snd (snd (snd (data_emission ?a ?c 5 start)))) = 5"
    using data_loop_keeps_running[OF ds acc, of 5 start] by (simp add: start_def)
  show ?thesis using J D by simp
qed

lemma int_field_PInt: "map_of d key = Some (PInt i) \<Longrightarrow> int_field key d = Some i"
  by (simp add: int_field_def)

lemma int_field_cong: "map_of d key = map_of d' key \<Longrightarrow> int_field key d = int_field key d'"
  by (simp add: int_field_def)


lemma position_order:
  fixes k k' j j' m :: nat
  assumes "j < m" and "k < k' \<or> (k = k' \<and> j < j')"
  shows "k * m + j < k' * m + j'"
proof (cases "k < k'")
  case True
  then have "Suc k \<le> k'" by simp
  then have "Suc k * m \<le> k' * m" by (rule mult_le_mono1)
  then show ?thesis using assms(1) by simp
next
  case False
  then show ?thesis using assms(2) by simp
qed




text \<open>
  Claim C7, as the code has it. In \<^verbatim>\<open>json_producer.py\<close> no counter ever decreases, one
  pass through the loop body adds one to exactly one of them, and among the
  published objects the \<open>sequence\<close> field increases strictly from an object to every
  later object of the same \<open>msg_type\<close>; each published \<open>sequence\<close> lies above the
  counter of its type at the start and not above it at the end. In
  \<^verbatim>\<open>data_producer.py\<close> the counter never decreases, the object at position \<open>j\<close> of the
  \<open>k\<close>-th published record carries \<open>motor_counter = counter + k * m + j\<close> (\<open>m\<close> objects per
  message), which increases strictly in publication order, and its
  \<open>encoder_counter\<close> is the one of position \<open>j\<close> in every record. Both loops are taken
  with an arbitrary sleep length; the fixed-batch loop publishes \<open>passes c s2 fuel\<close>
  records, every observed iteration when \<open>time.sleep\<close> accepts the length.
\<close>

theorem counters_increase_within_a_type:
  assumes "length n = 3"
    and "json_emission_loop a c s fuel (n, w) = (out, (n', w'))"
    and "length objects = nat (objects_per_message a)"
    and "data_emission_loop a c s2 fuel (objects, counter, v) =
           (out2, (objects2, counter2, v2))"
  shows "(\<forall>t<3. n ! t \<le> n' ! t)
       \<and> (\<exists>t<3. fst (snd (json_iteration a c s (n, w))) = n[t := n ! t + 1])
       \<and> (\<exists>objs. sent (trace w') = sent (trace w) @ map JsonObject objs
             \<and> sorted_wrt same_type_in_sequence objs
             \<and> (\<forall>obj\<in>set objs. \<exists>t<3. int_field ''msg_type'' obj = Some (int t)
                   \<and> (\<exists>q. int_field ''sequence'' obj = Some q \<and> n ! t < q \<and> q \<le> n' ! t)))
       \<and> counter \<le> counter2
       \<and> (\<exists>recs. sent (trace v2) = sent (trace v) @ map JsonArray recs
             \<and> length recs = passes c s2 fuel
             \<and> (\<forall>k<passes c s2 fuel. \<forall>j<length objects.
                   int_field ''motor_counter'' (recs ! k ! j) =
                     Some (counter + int (k * length objects + j))
                   \<and> int_field ''encoder_counter'' (recs ! k ! j) =
                       int_field ''encoder_counter'' (objects ! j))
             \<and> (\<forall>k<passes c s2 fuel. \<forall>k'<passes c s2 fuel. \<forall>j<length objects. \<forall>j'<length objects.
                   k < k' \<or> (k = k' \<and> j < j') \<longrightarrow>
                   (\<exists>p q. int_field ''motor_counter'' (recs ! k ! j) = Some p
                        \<and> int_field ''motor_counter'' (recs ! k' ! j') = Some q \<and> p < q)))"
proof -
  let ?m = "length objects"
  have A: "(\<forall>t<3. n ! t \<le> n' ! t)
       \<and> (\<exists>objs. sent (trace w') = sent (trace w) @ map JsonObject objs
             \<and> sorted_wrt same_type_in_sequence objs
             \<and> (\<forall>obj\<in>set objs. \<exists>t<3. int_field ''msg_type'' obj = Some (int t)
                   \<and> (\<exists>q. int_field ''sequence'' obj = Some q \<and> n ! t < q \<and> q \<le> n' ! t)))"
    using json_loop_sequences[OF assms(1,2)] .
  have B: "\<exists>t<3. fst (snd (json_iteration a c s (n, w))) = n[t := n ! t + 1]"
  proof -
    from json_iteration_step[OF assms(1), of a c s w] obtain w1 where
      "json_iteration a c s (n, w) =
         ((if sleep_accepted c s then Returns () else Raises (sleep_error c s)),
          (n[drawn_type (random_randint c (n_randint w)) :=
               n ! drawn_type (random_randint c (n_randint w)) + 1], w1))" by blast
    then show ?thesis
      using drawn_type_less[of "random_randint c (n_randint w)"]
      by (intro exI[of _ "drawn_type (random_randint c (n_randint w))"]) simp
  qed
  from data_loop_run[OF assms(3) assms(4)] obtain recs where
    c2: "counter2 = counter + int (passes c s2 fuel) * int ?m"
    and st: "sent (trace v2) = sent (trace v) @ map JsonArray recs"
    and lr: "length recs = passes c s2 fuel"
    and r: "\<forall>k<passes c s2 fuel. length (recs ! k) = ?m
                   \<and> (\<forall>j<?m.
                         map_of (recs ! k ! j) ''motor_counter'' =
                           Some (PInt (counter + int k * int ?m + int j))
                         \<and> (\<forall>key. key \<noteq> ''timestamp'' \<longrightarrow> key \<noteq> ''motor_counter'' \<longrightarrow>
                               map_of (recs ! k ! j) key = map_of (objects ! j) key))"
    by (elim exE conjE)
  have C: "counter \<le> counter2" unfolding c2 by simp
  have mc: "int_field ''motor_counter'' (recs ! k ! j) = Some (counter + int (k * ?m + j))"
    if "k < passes c s2 fuel" "j < ?m" for k j
  proof -
    have "map_of (recs ! k ! j) ''motor_counter'' = Some (PInt (counter + int k * int ?m + int j))"
      using r that by blast
    then show ?thesis by (simp add: int_field_def)
  qed
  have ec: "int_field ''encoder_counter'' (recs ! k ! j) = int_field ''encoder_counter'' (objects ! j)"
    if "k < passes c s2 fuel" "j < ?m" for k j
  proof -
    have "map_of (recs ! k ! j) ''encoder_counter'' = map_of (objects ! j) ''encoder_counter''"
      using r that by simp
    then show ?thesis by (rule int_field_cong)
  qed
  have ord: "\<forall>k<passes c s2 fuel. \<forall>k'<passes c s2 fuel. \<forall>j<?m. \<forall>j'<?m.
                   k < k' \<or> (k = k' \<and> j < j') \<longrightarrow>
                   (\<exists>p q. int_field ''motor_counter'' (recs ! k ! j) = Some p
                        \<and> int_field ''motor_counter'' (recs ! k' ! j') = Some q \<and> p < q)"
  proof (intro allI impI)
    fix k k' j j'
    assume h: "k < passes c s2 fuel" "k' < passes c s2 fuel" "j < ?m" "j' < ?m" "k < k' \<or> (k = k' \<and> j < j')"
    have "k * ?m + j < k' * ?m + j'" using h(3) h(5) by (rule position_order)
    then have "int (k * ?m + j) < int (k' * ?m + j')" by (simp only: of_nat_less_iff)
    then have "counter + int (k * ?m + j) < counter + int (k' * ?m + j')" by linarith
    then show "\<exists>p q. int_field ''motor_counter'' (recs ! k ! j) = Some p
                        \<and> int_field ''motor_counter'' (recs ! k' ! j') = Some q \<and> p < q"
      using mc[OF h(1) h(3)] mc[OF h(2) h(4)] by blast
  qed
  have D: "\<exists>recs. sent (trace v2) = sent (trace v) @ map JsonArray recs
             \<and> length recs = passes c s2 fuel
             \<and> (\<forall>k<passes c s2 fuel. \<forall>j<length objects.
                   int_field ''motor_counter'' (recs ! k ! j) =
                     Some (counter + int (k * length objects + j))
                   \<and> int_field ''encoder_counter'' (recs ! k ! j) =
                       int_field ''encoder_counter'' (objects ! j))
             \<and> (\<forall>k<passes c s2 fuel. \<forall>k'<passes c s2 fuel. \<forall>j<length objects. \<forall>j'<length objects.
                   k < k' \<or> (k = k' \<and> j < j') \<longrightarrow>
                   (\<exists>p q. int_field ''motor_counter'' (recs ! k ! j) = Some p
                        \<and> int_field ''motor_counter'' (recs ! k' ! j') = Some q \<and> p < q))"
    using st lr mc ec ord by (intro exI[of _ recs]) simp
  show ?thesis using A B C D by blast
qed

theorem counters_increase_witness:
  "[0, 0, 0] ! 0 \<le>
       fst (snd (json_emission_loop some_args two_then_one_env 0 3 ([0, 0, 0], start))) ! 0
   \<and> (\<exists>objs. sent (trace (snd (snd (json_emission_loop some_args two_then_one_env 0 3
                                        ([0, 0, 0], start))))) = map JsonObject objs
         \<and> sorted_wrt same_type_in_sequence objs)
   \<and> 0 \<le> fst (snd (snd (data_emission_loop some_args two_then_one_env 0 3
                            ([[], []], 0, start))))"
proof -
  let ?J = "json_emission_loop some_args two_then_one_env 0 3 ([0, 0, 0], start)"
  let ?D = "data_emission_loop some_args two_then_one_env 0 3
              ([[], []], 0, start)"
  have 1: "length [0, 0, 0 :: int] = 3" by simp
  have 2: "?J = (fst ?J, (fst (snd ?J), snd (snd ?J)))" by simp
  have 3: "length [[], [] :: dict] = nat (objects_per_message some_args)"
    by (simp add: some_args_def)
  have 4: "?D = (fst ?D, (fst (snd ?D), fst (snd (snd ?D)), snd (snd (snd ?D))))" by simp
  have 5: "sent (trace start) = []" by (simp add: start_def)
  note T = counters_increase_within_a_type [OF 1 2 3 4]
  from T have a0: "\<forall>t<3. [0, 0, 0] ! t \<le> fst (snd ?J) ! t" by blast
  have a: "[0, 0, 0] ! 0 \<le> fst (snd ?J) ! 0" using a0[rule_format, of 0] by simp
  from T obtain objs where
    "sent (trace (snd (snd ?J))) = sent (trace start) @ map JsonObject objs"
    "sorted_wrt same_type_in_sequence objs" by blast
  then have b: "\<exists>objs. sent (trace (snd (snd ?J))) = map JsonObject objs
                  \<and> sorted_wrt same_type_in_sequence objs"
    using 5 by auto
  from T have c: "0 \<le> fst (snd (snd ?D))" by blast
  show ?thesis using a b c by blast
qed

text \<open>
  Claim C7 says that every integer counter field of the published records increases
  from one published record to the next. In \<^verbatim>\<open>json_producer.py\<close> the \<open>sequence\<close>
  field is the counter of the record's own message type: three iterations that draw
  the types 0, 0 and 1 publish the sequences 1, 2 and 1.
\<close>

theorem sequence_across_types_counterexample:
  "sent (trace (snd (snd (json_emission some_args two_then_one_env 3 start)))) =
     [JsonObject [(''msg_type'', PInt 0), (''value'', PFloat (- 1000)),
                  (''sequence'', PInt 1), (''timestamp'', PStr ''now'')],
      JsonObject [(''msg_type'', PInt 0), (''value'', PFloat (- 1000)),
                  (''sequence'', PInt 2), (''timestamp'', PStr ''now'')],
      JsonObject [(''msg_type'', PInt 1), (''value'', PFloat 0),
                  (''sequence'', PInt 1), (''timestamp'', PStr ''now'')]]"
proof -
  let ?a = "some_args" and ?c = "two_then_one_env"
  have s: "json_sleep_s ?a = Inr 0" by (simp add: json_sleep_s_def some_args_def)
  have acc: "sleep_accepted ?c 0"
    by (simp add: sleep_accepted_def two_then_one_env_def active_env_def)
  have sil: "\<not> silent ?a" by (simp add: some_args_def)
  have e: "json_emission ?a ?c 3 start =
             json_emission_loop ?a ?c 0 (Suc (Suc (Suc 0))) ([0, 0, 0], start)"
    by (simp add: json_emission_def Let_def s sil numeral_3_eq_3)
  have r: "random_randint ?c = (\<lambda>k. if k < 2 then 1 else 401)"
    "random_random ?c = (\<lambda>k. 0)" "datetime_now ?c = (\<lambda>k. ''now'')"
    by (simp_all add: two_then_one_env_def active_env_def)
  have d: "drawn_type 1 = 0" "drawn_type 401 = 1" by (simp_all add: drawn_type_def)
  have n0: "n_randint start = 0" "sent (trace start) = []" by (simp_all add: start_def)
  have len: "length [0, 0, 0 :: int] = 3" by simp
  from json_iteration_step[OF len, of ?a ?c 0 start] obtain w1 where
    1: "json_iteration ?a ?c 0 ([0, 0, 0], start) = (Returns (), ([1, 0, 0], w1))"
    and w1: "n_randint w1 = Suc 0"
      "sent (trace w1) = [JsonObject [(''msg_type'', PInt 0), (''value'', PFloat (- 1000)),
                  (''sequence'', PInt 1), (''timestamp'', PStr ''now'')]]"
    by (auto simp: r d n0 acc next_object_def sample_value_type0)
  have len1: "length [1, 0, 0 :: int] = 3" by simp
  from json_iteration_step[OF len1, of ?a ?c 0 w1] obtain w2 where
    2: "json_iteration ?a ?c 0 ([1, 0, 0], w1) = (Returns (), ([2, 0, 0], w2))"
    and w2: "n_randint w2 = Suc (Suc 0)"
      "sent (trace w2) = sent (trace w1) @
         [JsonObject [(''msg_type'', PInt 0), (''value'', PFloat (- 1000)),
                  (''sequence'', PInt 2), (''timestamp'', PStr ''now'')]]"
    by (auto simp: r d w1(1) acc next_object_def sample_value_type0)
  have len2: "length [2, 0, 0 :: int] = 3" by simp
  from json_iteration_step[OF len2, of ?a ?c 0 w2] obtain w3 where
    3: "json_iteration ?a ?c 0 ([2, 0, 0], w2) = (Returns (), ([2, 1, 0], w3))"
    and w3: "sent (trace w3) = sent (trace w2) @
         [JsonObject [(''msg_type'', PInt 1), (''value'', PFloat 0),
                  (''sequence'', PInt 1), (''timestamp'', PStr ''now'')]]"
    by (auto simp: r d w2(1) acc next_object_def sample_value_type1)
  have "json_emission ?a ?c 3 start = (Running, ([2, 1, 0], w3))"
    unfolding e by (simp add: 1 2 3)
  then show ?thesis using w3 w2(2) w1(2) by simp
qed

text \<open>
  Claim C9. In \<^verbatim>\<open>data_producer.py\<close> the objects are built once, before the loop
  (\<open>objects0\<close>, as many as \<open>objects_per_message\<close>, each with \<open>msg_type\<close> 3 and
  \<open>encoder_counter\<close> 100 times its position). Every record handed to \<open>put_record\<close> has
  that many objects, and the object at position \<open>j\<close> agrees with \<open>objects0 ! j\<close> on every
  key other than \<open>timestamp\<close> and \<open>motor_counter\<close>: \<open>msg_type\<close>, \<open>encoder\<close>, \<open>motor\<close> and
  \<open>encoder_counter\<close> keep their startup values. \<open>motor_counter\<close> is rewritten in every
  iteration, to the running count of objects sent so far. The records are as many as
  the passes made: none when line 90 raises \<open>OverflowError\<close>, otherwise
  \<open>passes c s fuel\<close> for the sleep length \<open>s\<close>, that is every observed iteration when
  \<open>time.sleep\<close> accepts \<open>s\<close>.
\<close>

theorem fixed_batch_fields_keep_startup_values:
  assumes "data_emission a c fuel w = (out, (objects', counter', w'))"
  shows "\<exists>objects0 w0.
           build_objects c (py_range (objects_per_message a)) [] w = (objects0, w0)
         \<and> length objects0 = nat (objects_per_message a)
         \<and> (\<forall>j<length objects0.
               map_of (objects0 ! j) ''msg_type'' = Some (PInt 3)
               \<and> map_of (objects0 ! j) ''encoder_counter'' = Some (PInt (int j * 100)))
         \<and> (\<exists>recs. sent (trace w') = sent (trace w) @ map JsonArray recs
               \<and> length recs = (case data_sleep_s a of Inl e \<Rightarrow> 0 | Inr s \<Rightarrow> passes c s fuel)
               \<and> (\<forall>k<length recs. length (recs ! k) = length objects0
                     \<and> (\<forall>j<length objects0.
                           (\<forall>key. key \<noteq> ''timestamp'' \<longrightarrow> key \<noteq> ''motor_counter'' \<longrightarrow>
                                  map_of (recs ! k ! j) key = map_of (objects0 ! j) key)
                           \<and> map_of (recs ! k ! j) ''motor_counter'' =
                               Some (PInt (int (k * length objects0 + j))))))"
proof -
  from data_emission_run[of c a w fuel] obtain objects0 w0 where
    b: "build_objects c (py_range (objects_per_message a)) [] w = (objects0, w0)"
    and e: "data_emission a c fuel w =
              (case data_sleep_s a of
                 Inl e \<Rightarrow> (Raises e, (objects0, 0, w0))
               | Inr s \<Rightarrow> data_emission_loop a c s fuel (objects0, 0, w0))"
    and l: "length objects0 = nat (objects_per_message a)"
    and s0: "sent (trace w0) = sent (trace w)"
    and f0: "\<forall>j<length objects0.
               map_of (objects0 ! j) ''msg_type'' = Some (PInt 3)
               \<and> map_of (objects0 ! j) ''encoder_counter'' = Some (PInt (int j * 100))"
    by (elim exE conjE)
  have X: "\<exists>recs. sent (trace w') = sent (trace w) @ map JsonArray recs
               \<and> length recs = (case data_sleep_s a of Inl e \<Rightarrow> 0 | Inr s \<Rightarrow> passes c s fuel)
               \<and> (\<forall>k<length recs. length (recs ! k) = length objects0
                     \<and> (\<forall>j<length objects0.
                           (\<forall>key. key \<noteq> ''timestamp'' \<longrightarrow> key \<noteq> ''motor_counter'' \<longrightarrow>
                                  map_of (recs ! k ! j) key = map_of (objects0 ! j) key)
                           \<and> map_of (recs ! k ! j) ''motor_counter'' =
                               Some (PInt (int (k * length objects0 + j)))))"
  proof (cases "data_sleep_s a")
    case (Inl e')
    then have "w' = w0" using assms e by simp
    then show ?thesis using s0 Inl by (intro exI[of _ "[]"]) simp
  next
    case (Inr s)
    have run: "data_emission_loop a c s fuel (objects0, 0, w0) = (out, (objects', counter', w'))"
      using assms e Inr by simp
    from data_loop_run[OF l run] obtain recs where
      st: "sent (trace w') = sent (trace w0) @ map JsonArray recs"
      and lr: "length recs = passes c s fuel"
      and r: "\<forall>k<passes c s fuel. length (recs ! k) = length objects0
                     \<and> (\<forall>j<length objects0.
                           map_of (recs ! k ! j) ''motor_counter'' =
                             Some (PInt (0 + int k * int (length objects0) + int j))
                           \<and> (\<forall>key. key \<noteq> ''timestamp'' \<longrightarrow> key \<noteq> ''motor_counter'' \<longrightarrow>
                                 map_of (recs ! k ! j) key = map_of (objects0 ! j) key))"
      by (elim exE conjE)
    have R: "\<forall>k<length recs. length (recs ! k) = length objects0
                       \<and> (\<forall>j<length objects0.
                             (\<forall>key. key \<noteq> ''timestamp'' \<longrightarrow> key \<noteq> ''motor_counter'' \<longrightarrow>
                                    map_of (recs ! k ! j) key = map_of (objects0 ! j) key)
                             \<and> map_of (recs ! k ! j) ''motor_counter'' =
                                 Some (PInt (int (k * length objects0 + j))))"
      using r unfolding lr by simp
    show ?thesis using st s0 lr R Inr by (intro exI[of _ recs]) simp
  qed
  show ?thesis using b l f0 X by (intro exI[of _ objects0] exI[of _ w0]) simp
qed

theorem fixed_batch_fields_witness:
  "\<exists>recs. sent (trace (snd (snd (snd (data_emission some_args active_env 2 start))))) =
             map JsonArray recs
         \<and> length recs = 2
         \<and> (\<forall>k<2. \<forall>j<2. map_of (recs ! k ! j) ''msg_type'' = Some (PInt 3)
                         \<and> map_of (recs ! k ! j) ''encoder_counter'' = Some (PInt (int j * 100)))"
proof -
  let ?D = "data_emission some_args active_env 2 start"
  have 1: "?D = (fst ?D, (fst (snd ?D), fst (snd (snd ?D)), snd (snd (snd ?D))))" by simp
  have 2: "nat (objects_per_message some_args) = 2" by (simp add: some_args_def)
  have 3: "sent (trace start) = []" by (simp add: start_def)
  have 4: "data_sleep_s some_args = Inr 0" by (simp add: data_sleep_s_def some_args_def)
  have 5: "passes active_env 0 2 = 2"
    by (simp add: passes_def sleep_accepted_def active_env_def)
  from fixed_batch_fields_keep_startup_values [OF 1] obtain objects0 recs where
    l: "length objects0 = nat (objects_per_message some_args)"
    and f: "\<forall>j<length objects0.
               map_of (objects0 ! j) ''msg_type'' = Some (PInt 3)
               \<and> map_of (objects0 ! j) ''encoder_counter'' = Some (PInt (int j * 100))"
    and st: "sent (trace (snd (snd (snd ?D)))) = sent (trace start) @ map JsonArray recs"
    and lr0: "length recs = (case data_sleep_s some_args of Inl e \<Rightarrow> 0
                              | Inr s \<Rightarrow> passes active_env s 2)"
    and r0: "\<forall>k<length recs. length (recs ! k) = length objects0
                     \<and> (\<forall>j<length objects0.
                           (\<forall>key. key \<noteq> ''timestamp'' \<longrightarrow> key \<noteq> ''motor_counter'' \<longrightarrow>
                                  map_of (recs ! k ! j) key = map_of (objects0 ! j) key)
                           \<and> map_of (recs ! k ! j) ''motor_counter'' =
                               Some (PInt (int (k * length objects0 + j))))"
    by (elim exE conjE)
  have lr: "length recs = 2" using lr0 by (simp add: 4 5)
  have r: "\<forall>k<2. length (recs ! k) = length objects0
                     \<and> (\<forall>j<length objects0.
                           (\<forall>key. key \<noteq> ''timestamp'' \<longrightarrow> key \<noteq> ''motor_counter'' \<longrightarrow>
                                  map_of (recs ! k ! j) key = map_of (objects0 ! j) key)
                           \<and> map_of (recs ! k ! j) ''motor_counter'' =
                               Some (PInt (int (k * length objects0 + j))))"
    using r0 unfolding lr .
  have l2: "length objects0 = 2" using l 2 by simp
  have "\<forall>k<2. \<forall>j<2. map_of (recs ! k ! j) ''msg_type'' = Some (PInt 3)
                         \<and> map_of (recs ! k ! j) ''encoder_counter'' = Some (PInt (int j * 100))"
  proof (intro allI impI)
    fix k j :: nat assume k: "k < 2" and j: "j < 2"
    have a: "map_of (recs ! k ! j) ''msg_type'' = map_of (objects0 ! j) ''msg_type''"
      using r k j l2 by simp
    have b: "map_of (recs ! k ! j) ''encoder_counter'' = map_of (objects0 ! j) ''encoder_counter''"
      using r k j l2 by simp
    show "map_of (recs ! k ! j) ''msg_type'' = Some (PInt 3)
                         \<and> map_of (recs ! k ! j) ''encoder_counter'' = Some (PInt (int j * 100))"
      using a b f j l2 by simp
  qed
  then show ?thesis using st lr 3 by (intro exI[of _ recs]) simp
qed

end
